theory Spec2Isabelle
  imports Complex_Main "HOL-Library.Word" "HOL-Library.Signed_Division"
begin

unbundle bit_operations_syntax

section \<open>JavaScript numbers, arrays and errors\<close>

text \<open>
  The elements of a \<open>words\<close> array are 32-bit words: every operation of the library on
  them is bitwise, and a bitwise operator of JavaScript first converts its operands with
  ToInt32/ToUint32, so an element is modelled by its 32-bit pattern. A missing element
  (a read past the end, or a hole) is \<open>undefined\<close>, which the bitwise operators convert
  to 0; a write past the end extends the array.
\<close>

type_synonym word32 = "32 word"

text \<open>
  The exceptions the library's code can raise. \<open>NotAnInteger\<close> is not an exception of
  JavaScript: it marks a run in which a length became a fraction or NaN (half a byte of
  hex digits, a division by a block size of 0), which a buffer with an integer
  \<open>sigBytes\<close> cannot hold; the model follows such a run no further.
\<close>

datatype error = RangeError | ReferenceError string | TypeError | NotAnInteger

definition js_get :: "word32 list \<Rightarrow> nat \<Rightarrow> word32" where
  "js_get ws i = (if i < length ws then ws ! i else 0)"

definition js_get_int :: "word32 list \<Rightarrow> int \<Rightarrow> word32" where
  "js_get_int ws i = (if 0 \<le> i then js_get ws (nat i) else 0)"

definition js_set :: "word32 list \<Rightarrow> nat \<Rightarrow> word32 \<Rightarrow> word32 list" where
  "js_set ws i v =
     (if i < length ws then ws[i := v] else ws @ replicate (i - length ws) 0 @ [v])"

definition set_length :: "word32 list \<Rightarrow> nat \<Rightarrow> word32 list" where
  "set_length ws n = take n ws @ replicate (n - length ws) 0"

text \<open>\<open>x >>> n\<close> on a number: ToUint32, then a shift by \<open>n\<close> modulo 32.\<close>

definition js_ushr :: "int \<Rightarrow> nat \<Rightarrow> nat" where
  "js_ushr x n = nat ((x mod 2 ^ 32) div 2 ^ (n mod 32))"

text \<open>\<open>x % y\<close> for \<open>y \<noteq> 0\<close>: the remainder has the sign of the dividend.\<close>

definition js_rem :: "int \<Rightarrow> int \<Rightarrow> int" where
  "js_rem x y = x smod y"

text \<open>Shifts of a 32-bit value: the shift count is taken modulo 32.\<close>

definition w_shl :: "word32 \<Rightarrow> int \<Rightarrow> word32" where
  "w_shl w c = push_bit (nat (c mod 32)) w"

definition w_ushr :: "word32 \<Rightarrow> int \<Rightarrow> word32" where
  "w_ushr w c = drop_bit (nat (c mod 32)) w"

section \<open>core.js: WordArray\<close>

record wordarray =
  words :: "word32 list"
  sigBytes :: int

text \<open>\<open>WordArray.create(words, sigBytes)\<close>, both arguments optional.\<close>

definition WordArray_create :: "word32 list option \<Rightarrow> int option \<Rightarrow> wordarray" where
  "WordArray_create ws sb =
     (let ws' = (case ws of None \<Rightarrow> [] | Some l \<Rightarrow> l)
      in \<lparr>words = ws',
          sigBytes = (case sb of Some n \<Rightarrow> n | None \<Rightarrow> int (length ws') * 4)\<rparr>)"

text \<open>
  \<open>clamp\<close>: mask the word at \<open>sigBytes >>> 2\<close>, then assign \<open>words.length\<close>, which
  raises RangeError unless the new length is an array length.
\<close>

definition clamp :: "wordarray \<Rightarrow> error + wordarray" where
  "clamp wa =
     (let ws = words wa; sb = sigBytes wa; i = js_ushr sb 2;
          ws1 = js_set ws i (js_get ws i AND w_shl 0xffffffff (32 - js_rem sb 4 * 8));
          n = - ((- sb) div 4)
      in if n < 0 \<or> 2 ^ 32 \<le> n then Inl RangeError
         else Inr (wa\<lparr>words := set_length ws1 (nat n)\<rparr>))"

text \<open>One round of the loop of \<open>concat\<close>, on \<open>(thisWords, thisSigBytes)\<close>.\<close>

definition concat_step ::
  "word32 list \<Rightarrow> word32 list \<times> int \<Rightarrow> nat \<Rightarrow> word32 list \<times> int" where
  "concat_step thatWords st i =
     (let thisWords = fst st; thisSigBytes = snd st;
          thatByte = w_ushr (js_get thatWords (js_ushr (int i) 2)) (24 - int (i mod 4) * 8)
                       AND 0xff;
          k = js_ushr thisSigBytes 2
      in (js_set thisWords k
            (js_get thisWords k OR w_shl thatByte (24 - js_rem thisSigBytes 4 * 8)),
          thisSigBytes + 1))"

text \<open>
  \<open>this.concat(wordArray)\<close>. The argument is never the receiver itself at a call site
  of the library, so it is read as a value.
\<close>

definition concat_wa :: "wordarray \<Rightarrow> wordarray \<Rightarrow> error + wordarray" where
  "concat_wa this that =
     (case clamp this of
        Inl e \<Rightarrow> Inl e
      | Inr c \<Rightarrow>
          (let r = foldl (concat_step (words that)) (words c, sigBytes this)
                     [0 ..< nat (sigBytes that)]
           in Inr \<lparr>words = fst r, sigBytes = snd r\<rparr>))"

text \<open>\<open>clone\<close>: the copy has its own array (\<open>this.words.slice(0)\<close>).\<close>

definition clone :: "wordarray \<Rightarrow> wordarray" where
  "clone wa = \<lparr>words = words wa, sigBytes = sigBytes wa\<rparr>"

section \<open>Buffers as byte sequences\<close>

text \<open>
  The significant bytes of a buffer, most significant byte of each word first, and the
  word array that holds a byte sequence and nothing else (\<open>pack\<close>). They are the
  vocabulary of the theorems below; the library's functions above do not use them.
\<close>

definition lane :: "word32 \<Rightarrow> nat \<Rightarrow> 8 word" where
  "lane w l = ucast (drop_bit (24 - 8 * l) w)"

definition word_of_lanes :: "8 word \<Rightarrow> 8 word \<Rightarrow> 8 word \<Rightarrow> 8 word \<Rightarrow> word32" where
  "word_of_lanes a b c d = push_bit 24 (ucast a) OR push_bit 16 (ucast b) OR push_bit 8 (ucast c) OR ucast d"

definition byte_at :: "8 word list \<Rightarrow> nat \<Rightarrow> 8 word" where
  "byte_at bs j = (if j < length bs then bs ! j else 0)"

definition pack :: "8 word list \<Rightarrow> word32 list" where
  "pack bs = map (\<lambda>k. word_of_lanes (byte_at bs (4 * k)) (byte_at bs (4 * k + 1))
                        (byte_at bs (4 * k + 2)) (byte_at bs (4 * k + 3)))
               [0 ..< (length bs + 3) div 4]"

definition get_byte :: "word32 list \<Rightarrow> nat \<Rightarrow> 8 word" where
  "get_byte ws j = lane (js_get ws (j div 4)) (j mod 4)"

definition wa_bytes :: "wordarray \<Rightarrow> 8 word list" where
  "wa_bytes wa = map (get_byte (words wa)) [0 ..< nat (sigBytes wa)]"

lemma lane_word_of_lanes:
  "lane (word_of_lanes a b c d) 0 = a"
  "lane (word_of_lanes a b c d) (Suc 0) = b"
  "lane (word_of_lanes a b c d) 2 = c"
  "lane (word_of_lanes a b c d) 3 = d"
  unfolding lane_def word_of_lanes_def
  by (rule bit_word_eqI; simp add: bit_simps; fastforce dest: bit_imp_le_length)+

lemma word_of_lanes_lane: "word_of_lanes (lane w 0) (lane w 1) (lane w 2) (lane w 3) = w"
  unfolding lane_def word_of_lanes_def
  apply (rule bit_word_eqI)
  subgoal for n
    by (cases "24 \<le> n"; cases "16 \<le> n"; cases "8 \<le> n"; auto simp add: bit_simps)
  done

lemma lt4_cases: "l < 4 \<Longrightarrow> l = 0 \<or> l = Suc 0 \<or> l = 2 \<or> l = (3::nat)"
  by arith

lemma word_eq_lanesI:
  assumes "\<And>l. l < 4 \<Longrightarrow> lane w l = lane w' l"
  shows "w = w'"
proof -
  have "word_of_lanes (lane w 0) (lane w 1) (lane w 2) (lane w 3)
      = word_of_lanes (lane w' 0) (lane w' 1) (lane w' 2) (lane w' 3)"
    using assms [of 0] assms [of 1] assms [of 2] assms [of 3] by simp
  then show ?thesis by (simp only: word_of_lanes_lane)
qed

lemma lane_0 [simp]: "lane 0 l = 0"
  by (simp add: lane_def)

lemma lane_and: "lane (v AND w) l = lane v l AND lane w l"
  unfolding lane_def by (rule bit_word_eqI) (auto simp add: bit_simps)

lemma lane_or: "lane (v OR w) l = lane v l OR lane w l"
  unfolding lane_def by (rule bit_word_eqI) (auto simp add: bit_simps)

lemma lane_xor: "lane (v XOR w) l = lane v l XOR lane w l"
  unfolding lane_def by (rule bit_word_eqI) (auto simp add: bit_simps)

lemma lane_push_byte:
  assumes "l < 4" "r < 4"
  shows "lane (push_bit (24 - 8 * r) (ucast (b :: 8 word))) l = (if l = r then b else 0)"
  using lt4_cases [OF assms(1)] lt4_cases [OF assms(2)]
  unfolding lane_def
  apply (elim disjE)
  apply (simp_all)
  apply (rule bit_word_eqI; auto simp add: bit_simps dest: bit_imp_le_length)+
  done

lemma lane_mask:
  assumes "l < 4" "0 < r" "r < 4"
  shows "lane (push_bit (32 - 8 * r) (0xffffffff :: word32)) l = (if l < r then - 1 else 0)"
proof -
  have m: "(0xffffffff :: word32) = - 1" by simp
  from assms(2,3) have "r = Suc 0 \<or> r = 2 \<or> r = 3" by arith
  then show ?thesis
  using lt4_cases [OF assms(1)] 
  unfolding lane_def m
  apply (elim disjE)
  apply (simp_all)
  apply (rule bit_word_eqI; auto simp add: bit_simps dest: bit_imp_le_length)+
  done
qed


lemma length_pack [simp]: "length (pack bs) = (length bs + 3) div 4"
  by (simp add: pack_def)

lemma js_get_pack:
  "js_get (pack bs) k = word_of_lanes (byte_at bs (4 * k)) (byte_at bs (4 * k + 1))
                        (byte_at bs (4 * k + 2)) (byte_at bs (4 * k + 3))"
proof (cases "k < (length bs + 3) div 4")
  case True
  then show ?thesis by (simp add: js_get_def pack_def)
next
  case False
  then have "\<not> 4 * k < length bs" "\<not> 4 * k + 1 < length bs"
     "\<not> 4 * k + 2 < length bs" "\<not> 4 * k + 3 < length bs" by arith+
  with False show ?thesis
    by (simp add: js_get_def byte_at_def word_of_lanes_def)
qed

lemma get_byte_pack: "get_byte (pack bs) j = byte_at bs j"
proof -
  define k where "k = j div 4"
  define l where "l = j mod 4"
  have j: "j = 4 * k + l" by (simp add: k_def l_def)
  have "l < 4" by (simp add: l_def)
  from lt4_cases [OF this]
  have "lane (js_get (pack bs) k) l = byte_at bs (4 * k + l)"
    unfolding js_get_pack by (elim disjE) (simp_all add: lane_word_of_lanes)
  moreover have "get_byte (pack bs) j = lane (js_get (pack bs) k) l"
    by (simp add: get_byte_def k_def l_def)
  ultimately show ?thesis by (simp only: j)
qed

lemma length_wa_bytes [simp]: "length (wa_bytes wa) = nat (sigBytes wa)"
  by (simp add: wa_bytes_def)

lemma byte_at_wa_bytes:
  "byte_at (wa_bytes wa) j = (if int j < sigBytes wa then get_byte (words wa) j else 0)"
  by (auto simp add: byte_at_def wa_bytes_def)

lemma wa_bytes_pack [simp]: "wa_bytes \<lparr>words = pack bs, sigBytes = int (length bs)\<rparr> = bs"
  by (rule nth_equalityI) (simp_all add: wa_bytes_def get_byte_pack byte_at_def)

lemma words_eqI:
  assumes len: "length ws = length ws'"
    and bytes: "\<And>j. j < 4 * length ws \<Longrightarrow> get_byte ws j = get_byte ws' j"
  shows "ws = ws'"
proof (rule nth_equalityI [OF len])
  fix k assume k: "k < length ws"
  show "ws ! k = ws' ! k"
  proof (rule word_eq_lanesI)
    fix l :: nat assume l: "l < 4"
    with k have "4 * k + l < 4 * length ws" by arith
    from bytes [OF this] l k len show "lane (ws ! k) l = lane (ws' ! k) l"
      by (simp add: get_byte_def js_get_def)
  qed
qed

lemma length_js_set: "length (js_set ws i v) = max (length ws) (Suc i)"
  by (auto simp add: js_set_def)

lemma js_get_js_set: "js_get (js_set ws i v) k = (if k = i then v else js_get ws k)"
  by (auto simp add: js_set_def js_get_def nth_append)

lemma get_byte_js_set:
  "get_byte (js_set ws i v) j = (if j div 4 = i then lane v (j mod 4) else get_byte ws j)"
  by (simp add: get_byte_def js_get_js_set)

lemma length_set_length [simp]: "length (set_length ws n) = n"
  by (auto simp add: set_length_def)

lemma js_get_set_length: "js_get (set_length ws n) k = (if k < n then js_get ws k else 0)"
  by (auto simp add: set_length_def js_get_def nth_append)

lemma get_byte_set_length:
  "get_byte (set_length ws n) j = (if j div 4 < n then get_byte ws j else 0)"
  by (simp add: get_byte_def js_get_set_length)

lemma js_ushr_2: "0 \<le> x \<Longrightarrow> x < 2 ^ 32 \<Longrightarrow> js_ushr x 2 = nat x div 4"
  by (simp add: js_ushr_def nat_div_distrib)

lemma js_rem_nonneg: "0 \<le> x \<Longrightarrow> 0 < y \<Longrightarrow> js_rem x y = x mod y"
  by (simp add: js_rem_def smod_int_alt_def sgn_if)

lemma div4_same_mod_nz: "j div 4 < (s + 3) div 4 \<Longrightarrow> j div 4 = s div 4 \<Longrightarrow> s mod 4 \<noteq> (0::nat)"
  by (auto simp: mod_eq_0_iff_dvd elim!: dvdE)

lemma div4_less: "j div 4 < (s + 3) div 4 \<Longrightarrow> j div 4 \<noteq> s div 4 \<Longrightarrow> j < (s::nat)"
proof -
  assume a: "j div 4 < (s + 3) div 4" "j div 4 \<noteq> s div 4"
  have "(s + 3) div 4 \<le> s div 4 + 1" by (simp add: div_le_mono)
  with a have "j div 4 < s div 4" by linarith
  then have "4 * (j div 4) + 4 \<le> 4 * (s div 4)" by linarith
  moreover have "j = 4 * (j div 4) + j mod 4" "s = 4 * (s div 4) + s mod 4" by simp_all
  moreover have "j mod 4 < 4" by simp
  ultimately show ?thesis by linarith
qed

lemma div4_same_less: "j div 4 = s div 4 \<Longrightarrow> (j mod 4 < s mod 4) = (j < (s::nat))"
proof -
  assume a: "j div 4 = s div 4"
  have "j = 4 * (j div 4) + j mod 4" "s = 4 * (s div 4) + s mod 4" by simp_all
  with a show ?thesis by linarith
qed

lemma ceil4_nat: "- ((- int s) div 4) = int ((s + 3) div 4)"
  by arith

lemma clamp_mask_lane:
  assumes "0 \<le> sb" "l < 4" "sb mod 4 \<noteq> 0"
  shows "lane (w_shl 0xffffffff (32 - js_rem sb 4 * 8)) l = (if int l < sb mod 4 then - 1 else 0)"
proof -
  define r where "r = nat (sb mod 4)"
  have r: "0 < r" "r < 4" "sb mod 4 = int r" using assms by (simp_all add: r_def) 
  from r have "r = 1 \<or> r = 2 \<or> r = 3" by arith
  then have "nat ((32 - int r * 8) mod 32) = 32 - 8 * r" by (elim disjE) simp_all
  then have "w_shl 0xffffffff (32 - js_rem sb 4 * 8) = push_bit (32 - 8 * r) (0xffffffff :: word32)"
    using assms r by (simp add: w_shl_def js_rem_nonneg)
  then show ?thesis using lane_mask [OF assms(2) r(1,2)] r by simp
qed

lemma clamp_pack:
  assumes "0 \<le> sigBytes wa" "sigBytes wa < 2 ^ 32"
  shows "clamp wa = Inr (wa\<lparr>words := pack (wa_bytes wa)\<rparr>)"
proof -
  define sb where "sb = sigBytes wa"
  define s where "s = nat sb"
  define ws where "ws = words wa"
  define ws1 where "ws1 = js_set ws (s div 4)
     (js_get ws (s div 4) AND w_shl 0xffffffff (32 - js_rem sb 4 * 8))"
  have sb: "sb = int s" "0 \<le> sb" "sb < 2 ^ 32" using assms by (simp_all add: s_def sb_def)
  have n: "- ((- sb) div 4) = int ((s + 3) div 4)" unfolding sb(1) by (rule ceil4_nat)
  have i: "js_ushr sb 2 = s div 4" using js_ushr_2 [OF sb(2,3)] by (simp add: s_def)
  have "(s + 3) div 4 \<le> s" by (cases "s = 0") simp_all
  with sb have n_lt: "\<not> (2::int) ^ 32 \<le> int ((s + 3) div 4)" by linarith
  have c: "clamp wa = Inr (wa\<lparr>words := set_length ws1 ((s + 3) div 4)\<rparr>)"
    unfolding clamp_def Let_def sb_def [symmetric] ws_def [symmetric] i n ws1_def [symmetric]
    using n_lt by simp
  have "set_length ws1 ((s + 3) div 4) = pack (wa_bytes wa)"
  proof (rule words_eqI)
    show "length (set_length ws1 ((s + 3) div 4)) = length (pack (wa_bytes wa))"
      by (simp add: s_def sb_def)
  next
    fix j assume "j < 4 * length (set_length ws1 ((s + 3) div 4))"
    then have j: "j div 4 < (s + 3) div 4" by simp
    show "get_byte (set_length ws1 ((s + 3) div 4)) j = get_byte (pack (wa_bytes wa)) j"
    proof (cases "j div 4 = s div 4")
      case False
      with j have "j < s" by (rule div4_less)
      with False j show ?thesis
        by (simp add: get_byte_set_length get_byte_pack byte_at_wa_bytes ws1_def get_byte_js_set
            ws_def sb_def [symmetric] sb(1))
    next
      case True
      have im: "int s mod 4 = int (s mod 4)" by (simp add: zmod_int)
      from div4_same_mod_nz [OF j True] have nz: "sb mod 4 \<noteq> 0"
        unfolding sb(1) im by simp
      have l: "j mod 4 < 4" by simp
      have eq: "(int (j mod 4) < sb mod 4) = (j < s)" using div4_same_less [OF True] unfolding sb(1) im
        by simp
      have lhs: "get_byte (set_length ws1 ((s + 3) div 4)) j
          = lane (js_get ws (s div 4)) (j mod 4) AND (if j < s then - 1 else 0)"
        using j True eq
        by (simp add: get_byte_set_length ws1_def get_byte_js_set lane_and
            clamp_mask_lane [OF sb(2) l nz])
      have "get_byte (pack (wa_bytes wa)) j = (if j < s then get_byte ws j else 0)"
        by (simp add: get_byte_pack byte_at_wa_bytes sb_def [symmetric] sb(1) ws_def [symmetric])
      also have "get_byte ws j = lane (js_get ws (s div 4)) (j mod 4)"
        by (simp add: get_byte_def True)
      finally show ?thesis by (simp add: lhs)
    qed
  qed
  with c show ?thesis by simp
qed


lemma ff_mask: "(0xff :: word32) = mask 8"
  by (simp add: mask_eq_exp_minus_1)

lemma and_ff: "(w :: word32) AND 0xff = ucast (ucast w :: 8 word)"
  unfolding ff_mask by (rule bit_word_eqI) (auto simp add: bit_simps)

lemma w_ushr_lane: "l < 4 \<Longrightarrow> w_ushr w (24 - int l * 8) = drop_bit (24 - 8 * l) w"
  by (drule lt4_cases) (elim disjE; simp add: w_ushr_def)

lemma w_shl_lane: "l < 4 \<Longrightarrow> w_shl w (24 - int l * 8) = push_bit (24 - 8 * l) w"
  by (drule lt4_cases) (elim disjE; simp add: w_shl_def)

lemma that_byte:
  assumes "int i < 2 ^ 32"
  shows "w_ushr (js_get tw (js_ushr (int i) 2)) (24 - int (i mod 4) * 8) AND 0xff
         = ucast (get_byte tw i)"
proof -
  have "js_ushr (int i) 2 = i div 4" using js_ushr_2 [of "int i"] assms by simp
  then show ?thesis
    by (simp add: w_ushr_lane and_ff get_byte_def lane_def)
qed

lemma byte_at_snoc:
  "byte_at (bs @ [b]) j = (if j = length bs then b else byte_at bs j)"
  by (auto simp add: byte_at_def nth_append)

lemma concat_step_pack:
  assumes s: "int (length bs) < 2 ^ 32" and i: "int i < 2 ^ 32"
  shows "concat_step tw (pack bs, int (length bs)) i
         = (pack (bs @ [get_byte tw i]), int (length bs) + 1)"
proof -
  define s where "s = length bs"
  define b where "b = get_byte tw i"
  define v where "v = js_get (pack bs) (s div 4) OR push_bit (24 - 8 * (s mod 4)) (ucast b)"
  have k: "js_ushr (int s) 2 = s div 4" using js_ushr_2 [of "int s"] assms by (simp add: s_def)
  have r: "js_rem (int s) 4 = int (s mod 4)" by (simp add: js_rem_nonneg zmod_int)
  have sh: "w_shl (ucast b) (24 - int (s mod 4) * 8) = push_bit (24 - 8 * (s mod 4)) (ucast b)"
    by (simp add: w_shl_lane)
  have step: "concat_step tw (pack bs, int s) i = (js_set (pack bs) (s div 4) v, int s + 1)"
    unfolding concat_step_def Let_def fst_conv snd_conv that_byte [OF i] k r
    by (simp add: sh [unfolded b_def] v_def b_def)
  have "js_set (pack bs) (s div 4) v = pack (bs @ [b])"
  proof (rule words_eqI)
    have e: "(s + 4) div 4 = Suc (s div 4)" by simp
    have "(s + 3) div 4 \<le> (s + 4) div 4" by (rule div_le_mono) simp
    then have "max ((s + 3) div 4) (Suc (s div 4)) = (s + 4) div 4"
      unfolding e by (simp add: max_def)
    then show "length (js_set (pack bs) (s div 4) v) = length (pack (bs @ [b]))"
      by (simp add: length_js_set s_def)
  next
    fix j
    show "get_byte (js_set (pack bs) (s div 4) v) j = get_byte (pack (bs @ [b])) j"
    proof (cases "j div 4 = s div 4")
      case False
      then have "j \<noteq> s" by auto
      with False show ?thesis
        by (simp add: get_byte_js_set get_byte_pack byte_at_snoc s_def)
    next
      case True
      have "lane v (j mod 4) = get_byte (pack bs) j OR (if j mod 4 = s mod 4 then b else 0)"
        unfolding v_def lane_or by (simp add: lane_push_byte get_byte_def True)
      moreover have "(j mod 4 = s mod 4) = (j = s)" using True
        by (metis div_mult_mod_eq)
      moreover have "byte_at bs s = 0" by (simp add: byte_at_def s_def)
      ultimately show ?thesis using True
        by (simp add: get_byte_js_set get_byte_pack byte_at_snoc s_def [symmetric])
    qed
  qed
  with step show ?thesis by (simp add: s_def b_def)
qed

lemma concat_loop_pack:
  assumes "int (length bs) + int n \<le> 2 ^ 32"
  shows "foldl (concat_step tw) (pack bs, int (length bs)) [0 ..< n]
         = (pack (bs @ map (get_byte tw) [0 ..< n]), int (length bs) + int n)"
  using assms
proof (induction n)
  case 0
  then show ?case by simp
next
  case (Suc n)
  then have IH: "foldl (concat_step tw) (pack bs, int (length bs)) [0 ..< n]
         = (pack (bs @ map (get_byte tw) [0 ..< n]), int (length bs) + int n)" by simp
  have len: "int (length bs) + int n = int (length (bs @ map (get_byte tw) [0 ..< n]))"
    by simp
  have a: "int (length (bs @ map (get_byte tw) [0 ..< n])) < 2 ^ 32" "int n < 2 ^ 32"
    using Suc.prems by simp_all
  show ?case
    unfolding upt_Suc_append [OF le0] foldl_append IH foldl_Cons foldl_Nil len
      concat_step_pack [OF a]
    by simp
qed

lemma concat_wa_pack:
  assumes "0 \<le> sigBytes a" "0 \<le> sigBytes b" "sigBytes a + sigBytes b < 2 ^ 32"
  shows "concat_wa a b = Inr \<lparr>words = pack (wa_bytes a @ wa_bytes b),
                               sigBytes = sigBytes a + sigBytes b\<rparr>"
proof -
  have c: "clamp a = Inr (a\<lparr>words := pack (wa_bytes a)\<rparr>)"
    using assms by (intro clamp_pack) simp_all
  have l: "sigBytes a = int (length (wa_bytes a))" using assms by simp
  have "int (length (wa_bytes a)) + int (nat (sigBytes b)) \<le> 2 ^ 32" using assms by simp
  from concat_loop_pack [OF this, of "words b"]
  have "foldl (concat_step (words b)) (pack (wa_bytes a), sigBytes a) [0 ..< nat (sigBytes b)]
        = (pack (wa_bytes a @ wa_bytes b), sigBytes a + sigBytes b)"
    using assms by (simp add: wa_bytes_def [of b])
  then show ?thesis
    unfolding concat_wa_def c by (simp add: Let_def)
qed

section \<open>cipher-core.js: PKCS #5/7 padding\<close>

text \<open>The loop of \<open>pad\<close> that pushes the padding word: \<open>for (i = 0; i < n; i += 4)\<close>.\<close>

function padding_loop :: "int \<Rightarrow> int \<Rightarrow> word32 \<Rightarrow> word32 list \<Rightarrow> word32 list" where
  "padding_loop i n w paddingWords =
     (if i < n then padding_loop (i + 4) n w (paddingWords @ [w]) else paddingWords)"
  by pat_completeness auto
termination
  by (relation "measure (\<lambda>(i, n, w, paddingWords). nat (n - i))") auto

text \<open>
  \<open>pad\<close>. With a block size of 0 the count is \<open>(0 - NaN) || 0\<close>, which is 0. The
  padding word is built with 32-bit shifts of the count.
\<close>

definition PKCS5_pad :: "wordarray \<Rightarrow> nat \<Rightarrow> error + wordarray" where
  "PKCS5_pad data blockSize =
     (let blockSizeBytes = int blockSize * 4;
          nPaddingBytes =
            (if blockSizeBytes = 0 then 0
             else let d = blockSizeBytes - js_rem (sigBytes data) blockSizeBytes
                  in if d = 0 then blockSizeBytes else d);
          n = (word_of_int nPaddingBytes :: word32);
          paddingWord = w_shl n 24 OR w_shl n 16 OR w_shl n 8 OR n;
          padding = \<lparr>words = padding_loop 0 nPaddingBytes paddingWord [],
                     sigBytes = nPaddingBytes\<rparr>
      in concat_wa data padding)"

text \<open>\<open>unpad\<close>: the low byte of the word at \<open>(sigBytes - 1) >>> 2\<close> is subtracted.\<close>

definition PKCS5_unpad :: "wordarray \<Rightarrow> wordarray" where
  "PKCS5_unpad data =
     (let nPaddingBytes = js_get (words data) (js_ushr (sigBytes data - 1) 2) AND 0xff
      in data\<lparr>sigBytes := sigBytes data - uint nPaddingBytes\<rparr>)"

text \<open>The padding length as the specification gives it.\<close>

definition nPadding :: "wordarray \<Rightarrow> nat \<Rightarrow> int" where
  "nPadding d blockSize = int blockSize * 4 - sigBytes d mod (int blockSize * 4)"

declare padding_loop.simps [simp del]

lemma padding_loop_replicate:
  "padding_loop i n w acc = acc @ replicate (nat ((n - i + 3) div 4)) w"
proof (induction i n w acc rule: padding_loop.induct)
  case (1 i n w acc)
  show ?case
  proof (cases "i < n")
    case True
    then have "nat ((n - i + 3) div 4) = Suc (nat ((n - (i + 4) + 3) div 4))" by linarith
    with True 1 show ?thesis
      by (subst padding_loop.simps) (simp add: replicate_append_same)
  next
    case False
    then have "nat ((n - i + 3) div 4) = 0" by simp
    with False show ?thesis by (subst padding_loop.simps) simp
  qed
qed

lemma padding_word_lanes:
  assumes "0 \<le> n" "n < 256"
  shows "(let w = (word_of_int n :: word32) in w_shl w 24 OR w_shl w 16 OR w_shl w 8 OR w)
         = word_of_lanes (word_of_int n) (word_of_int n) (word_of_int n) (word_of_int n)"
proof -
  have "(word_of_int n :: word32) = ucast (word_of_int n :: 8 word)"
    using assms
    by (simp add: unsigned_of_int take_bit_int_eq_self) 
  then show ?thesis
    by (simp add: Let_def w_shl_def word_of_lanes_def)
qed


lemma lane_same: "l < 4 \<Longrightarrow> lane (word_of_lanes b b b b) l = b"
  by (drule lt4_cases) (elim disjE; simp add: lane_word_of_lanes)

lemma wa_bytes_padding:
  assumes "0 \<le> n"
  shows "wa_bytes \<lparr>words = replicate (nat ((n + 3) div 4)) (word_of_lanes b b b b),
                   sigBytes = n\<rparr> = replicate (nat n) b"
proof (rule nth_equalityI)
  show "length (wa_bytes \<lparr>words = replicate (nat ((n + 3) div 4)) (word_of_lanes b b b b),
                   sigBytes = n\<rparr>) = length (replicate (nat n) b)" by simp
next
  fix j assume "j < length (wa_bytes \<lparr>words = replicate (nat ((n + 3) div 4))
      (word_of_lanes b b b b), sigBytes = n\<rparr>)"
  then have j: "j < nat n" by simp
  then have "int j < n" by simp
  then have "int j div 4 < (n + 3) div 4" by linarith
  then have "j div 4 < nat ((n + 3) div 4)" by (simp add: zdiv_int)
  with j show "wa_bytes \<lparr>words = replicate (nat ((n + 3) div 4)) (word_of_lanes b b b b),
                   sigBytes = n\<rparr> ! j = replicate (nat n) b ! j"
    by (simp add: wa_bytes_def get_byte_def js_get_def lane_same)
qed

lemma nPadding_range:
  assumes "0 < blockSize"
  shows "1 \<le> nPadding d blockSize" "nPadding d blockSize \<le> int blockSize * 4"
proof -
  have p: "0 < int blockSize * 4" using assms by simp
  from pos_mod_bound [OF p, of "sigBytes d"] show "1 \<le> nPadding d blockSize"
    by (simp add: nPadding_def)
  from pos_mod_sign [OF p, of "sigBytes d"] show "nPadding d blockSize \<le> int blockSize * 4"
    by (simp add: nPadding_def)
qed

lemma PKCS5_pad_pack:
  assumes bs: "0 < blockSize" "blockSize \<le> 63"
    and d: "0 \<le> sigBytes d" "sigBytes d + int blockSize * 4 < 2 ^ 32"
  shows "PKCS5_pad d blockSize =
           Inr \<lparr>words = pack (wa_bytes d @ replicate (nat (nPadding d blockSize))
                                            (word_of_int (nPadding d blockSize))),
                sigBytes = sigBytes d + nPadding d blockSize\<rparr>"
proof -
  define n where "n = nPadding d blockSize"
  have n: "1 \<le> n" "n \<le> int blockSize * 4"
    using nPadding_range [OF bs(1), of d] by (simp_all add: n_def)
  with bs have n256: "0 \<le> n" "n < 256" by simp_all
  have r: "js_rem (sigBytes d) (int blockSize * 4) = sigBytes d mod (int blockSize * 4)"
    using bs d by (simp add: js_rem_nonneg)
  have nP: "(if int blockSize * 4 = 0 then 0
             else let x = int blockSize * 4 - js_rem (sigBytes d) (int blockSize * 4)
                  in if x = 0 then int blockSize * 4 else x) = n"
    using bs n unfolding r by (simp add: Let_def n_def nPadding_def)
  have c: "concat_wa d \<lparr>words = replicate (nat ((n + 3) div 4))
              (word_of_lanes (word_of_int n) (word_of_int n) (word_of_int n) (word_of_int n)),
              sigBytes = n\<rparr>
     = Inr \<lparr>words = pack (wa_bytes d @ replicate (nat n) (word_of_int n)),
             sigBytes = sigBytes d + n\<rparr>"
    using d n by (subst concat_wa_pack) (simp_all add: wa_bytes_padding)
  show ?thesis
    unfolding PKCS5_pad_def Let_def nP [unfolded Let_def]
      padding_word_lanes [OF n256, unfolded Let_def] padding_loop_replicate
    using c by (simp add: n_def)
qed


lemma unpad_aligned:
  assumes "0 < sigBytes d" "sigBytes d \<le> 2 ^ 32" "sigBytes d mod 4 = 0"
  shows "PKCS5_unpad d
         = d\<lparr>sigBytes := sigBytes d - uint (get_byte (words d) (nat (sigBytes d - 1)))\<rparr>"
proof -
  define s where "s = nat (sigBytes d - 1)"
  have s: "sigBytes d - 1 = int s" using assms by (simp add: s_def)
  from assms(3) have "4 dvd sigBytes d" by (simp add: dvd_eq_mod_eq_0)
  then obtain k where k: "sigBytes d = 4 * k" ..
  with assms(1) have "0 < k" by simp
  then have "k = int (Suc (nat (k - 1)))" by simp
  then obtain k' where k': "k = int (Suc k')" ..
  have "int s = int (4 * k' + 3)" using s unfolding k k' by simp
  then have "s = 4 * k' + 3" by (simp only: of_nat_eq_iff)
  then have m: "s mod 4 = 3" by simp
  have i: "js_ushr (int s) 2 = s div 4" using js_ushr_2 [of "int s"] assms s by simp
  have "lane w 3 = ucast w" for w by (simp add: lane_def)
  moreover have "uint (ucast b :: word32) = uint b" for b :: "8 word"
    by (rule uint_up_ucast) (simp add: is_up)
  ultimately have "uint (js_get (words d) (s div 4) AND 0xff) = uint (get_byte (words d) s)"
    by (simp add: get_byte_def m and_ff)
  then show ?thesis
    unfolding PKCS5_unpad_def Let_def s i s_def [symmetric] by simp
qed


lemma wa_bytes_pack_take:
  assumes "m \<le> length X"
  shows "wa_bytes \<lparr>words = pack X, sigBytes = int m\<rparr> = take m X"
  using assms
  by (intro nth_equalityI) (simp_all add: wa_bytes_def get_byte_pack byte_at_def)

lemma PKCS5_pad_result:
  assumes a: "0 < blockSize" "blockSize \<le> 63"
    "0 \<le> sigBytes d" "sigBytes d + int blockSize * 4 < 2 ^ 32"
  defines "p \<equiv> \<lparr>words = pack (wa_bytes d @ replicate (nat (nPadding d blockSize))
                                      (word_of_int (nPadding d blockSize))),
                 sigBytes = sigBytes d + nPadding d blockSize\<rparr>"
  shows "PKCS5_pad d blockSize = Inr p"
    and "wa_bytes p = wa_bytes d @ replicate (nat (nPadding d blockSize))
                                          (word_of_int (nPadding d blockSize))"
    and "PKCS5_unpad p = p\<lparr>sigBytes := sigBytes d\<rparr>"
    and "wa_bytes (p\<lparr>sigBytes := sigBytes d\<rparr>) = wa_bytes d"
    and "sigBytes p = 4 * (int blockSize * (sigBytes d div (int blockSize * 4) + 1))"
proof -
  define n where "n = nPadding d blockSize"
  define B where "B = wa_bytes d @ replicate (nat n) (word_of_int n :: 8 word)"
  have p_def: "p = \<lparr>words = pack B, sigBytes = sigBytes d + n\<rparr>"
    by (simp add: p_def B_def n_def)
  have n: "1 \<le> n" "n \<le> int blockSize * 4"
    using nPadding_range [OF a(1), of d] by (simp_all add: n_def)
  have lenB: "sigBytes d + n = int (length B)" using a n by (simp add: B_def)
  show pad: "PKCS5_pad d blockSize = Inr p"
    unfolding p_def B_def n_def by (rule PKCS5_pad_pack [OF a])
  have bytes: "wa_bytes p = B" unfolding p_def lenB by simp
  then show "wa_bytes p = wa_bytes d @ replicate (nat (nPadding d blockSize))
                                          (word_of_int (nPadding d blockSize))"
    by (simp add: B_def n_def)
  have "sigBytes d - sigBytes d mod (int blockSize * 4)
          = int blockSize * 4 * (sigBytes d div (int blockSize * 4))"
    by (rule minus_mod_eq_mult_div)
  then have L: "sigBytes d + n = 4 * (int blockSize * (sigBytes d div (int blockSize * 4) + 1))"
    by (simp add: n_def nPadding_def algebra_simps)
  then show "sigBytes p = 4 * (int blockSize * (sigBytes d div (int blockSize * 4) + 1))"
    by (simp add: p_def)
  from L have "4 dvd sigBytes d + n" by (simp only: dvd_triv_left)
  then have al: "sigBytes p mod 4 = 0" by (simp add: p_def mod_eq_0_iff_dvd)
  have pos: "0 < sigBytes p" "sigBytes p \<le> 2 ^ 32" using a n by (simp_all add: p_def)
  have idx: "nat (sigBytes p - 1) = length (wa_bytes d) + (nat n - 1)"
    using a n by (simp add: p_def)
  have "nat n - 1 < nat n" using n by simp
  then have "B ! (length (wa_bytes d) + (nat n - 1)) = word_of_int n"
    unfolding B_def nth_append_length_plus by simp
  moreover have "length (wa_bytes d) + (nat n - 1) < length B" using n by (simp add: B_def)
  ultimately have last: "get_byte (words p) (nat (sigBytes p - 1)) = word_of_int n"
    unfolding idx by (simp add: p_def get_byte_pack byte_at_def)
  have "0 \<le> n" "n < 256" using n a by simp_all
  then have u: "uint (word_of_int n :: 8 word) = n"
    by (simp add: uint_word_of_int take_bit_int_eq_self)
  show un: "PKCS5_unpad p = p\<lparr>sigBytes := sigBytes d\<rparr>"
    unfolding unpad_aligned [OF pos al] last u by (simp add: p_def)
  have "wa_bytes (p\<lparr>sigBytes := sigBytes d\<rparr>) = take (nat (sigBytes d)) B"
    unfolding p_def using wa_bytes_pack_take [of "nat (sigBytes d)" B] a
    by (simp add: B_def)
  then show "wa_bytes (p\<lparr>sigBytes := sigBytes d\<rparr>) = wa_bytes d" by (simp add: B_def)
qed

text \<open>
  Claim C5, amended. For a block size of 1 to 63 words and a buffer \<open>d\<close> with
  \<open>0 \<le> sigBytes d\<close> that stays below \<open>2 ^ 32\<close> bytes when padded, \<open>pad\<close> succeeds and
  appends exactly \<open>n\<close> bytes of value \<open>n\<close>, where \<open>n\<close> is the block size in bytes minus
  \<open>sigBytes d\<close> modulo the block size in bytes; \<open>n\<close> is at least 1 and at most the block
  size in bytes, and is the whole block size on an aligned buffer; \<open>unpad\<close> of the result
  has the significant bytes of \<open>d\<close> again.
\<close>

theorem PKCS5_pad_unpad:
  assumes "0 < blockSize" "blockSize \<le> 63"
    and "0 \<le> sigBytes d" "sigBytes d + int blockSize * 4 < 2 ^ 32"
  shows "\<exists>p. PKCS5_pad d blockSize = Inr p
           \<and> 1 \<le> nPadding d blockSize \<and> nPadding d blockSize \<le> int blockSize * 4
           \<and> (sigBytes d mod (int blockSize * 4) = 0 \<longrightarrow> nPadding d blockSize = int blockSize * 4)
           \<and> sigBytes p = sigBytes d + nPadding d blockSize
           \<and> wa_bytes p = wa_bytes d @ replicate (nat (nPadding d blockSize))
                                          (word_of_int (nPadding d blockSize))
           \<and> sigBytes (PKCS5_unpad p) = sigBytes d
           \<and> wa_bytes (PKCS5_unpad p) = wa_bytes d"
proof -
  let ?p = "\<lparr>words = pack (wa_bytes d @ replicate (nat (nPadding d blockSize))
                                      (word_of_int (nPadding d blockSize))),
            sigBytes = sigBytes d + nPadding d blockSize\<rparr>"
  note r = PKCS5_pad_result [OF assms]
  have "sigBytes d mod (int blockSize * 4) = 0 \<longrightarrow> nPadding d blockSize = int blockSize * 4"
    by (simp add: nPadding_def)
  then show ?thesis
    using r(1,2,4) nPadding_range [OF assms(1), of d]
    by (intro exI [of _ ?p]) (simp add: r(3))
qed

text \<open>
  Claim C5 as stated fails at a block size of 64 words (256 bytes): the count 256 does not
  fit a byte, the padding word is \<open>0x01010100\<close>, and \<open>unpad\<close> removes nothing.
\<close>

theorem PKCS5_pad_64_counterexample:
  "PKCS5_pad \<lparr>words = [], sigBytes = 0\<rparr> 64
     = Inr \<lparr>words = replicate 64 0x01010100, sigBytes = 256\<rparr>
   \<and> sigBytes (PKCS5_unpad \<lparr>words = replicate 64 0x01010100, sigBytes = 256\<rparr>)
       \<noteq> sigBytes \<lparr>words = [], sigBytes = 0\<rparr>"
  by code_simp

text \<open>The theorem of C5 at the three bytes \<open>abc\<close> and a block of 4 words.\<close>

theorem PKCS5_pad_unpad_witness:
  "0 < (4::nat) \<and> (4::nat) \<le> 63 \<and> 0 \<le> sigBytes \<lparr>words = [0x61626300], sigBytes = 3\<rparr>
   \<and> sigBytes \<lparr>words = [0x61626300], sigBytes = 3\<rparr> + int 4 * 4 < 2 ^ 32
   \<and> PKCS5_pad \<lparr>words = [0x61626300], sigBytes = 3\<rparr> 4
       = Inr \<lparr>words = [0x6162630d, 0x0d0d0d0d, 0x0d0d0d0d, 0x0d0d0d0d], sigBytes = 16\<rparr>
   \<and> PKCS5_unpad \<lparr>words = [0x6162630d, 0x0d0d0d0d, 0x0d0d0d0d, 0x0d0d0d0d], sigBytes = 16\<rparr>
       = \<lparr>words = [0x6162630d, 0x0d0d0d0d, 0x0d0d0d0d, 0x0d0d0d0d], sigBytes = 3\<rparr>"
proof -
  have e: "PKCS5_pad \<lparr>words = [0x61626300], sigBytes = 3\<rparr> 4
       = Inr \<lparr>words = [0x6162630d, 0x0d0d0d0d, 0x0d0d0d0d, 0x0d0d0d0d], sigBytes = 16\<rparr>"
    by code_simp
  have u: "PKCS5_unpad \<lparr>words = [0x6162630d, 0x0d0d0d0d, 0x0d0d0d0d, 0x0d0d0d0d], sigBytes = 16\<rparr>
       = \<lparr>words = [0x6162630d, 0x0d0d0d0d, 0x0d0d0d0d, 0x0d0d0d0d], sigBytes = 3\<rparr>"
    by code_simp
  from PKCS5_pad_unpad [of 4 "\<lparr>words = [0x61626300], sigBytes = 3\<rparr>"] e u
  show ?thesis by simp
qed





section \<open>cipher-core.js: block ciphers and the CBC mode\<close>

text \<open>
  A function that may raise or may not return gives \<open>Some (Inr v)\<close> when it returns
  \<open>v\<close>, \<open>Some (Inl e)\<close> when it raises \<open>e\<close>, and \<open>None\<close> when it does not terminate.
\<close>

type_synonym 'a result = "(error + 'a) option"

text \<open>
  Modelled from the spec: the primitive of a concrete block cipher (\<open>_init\<close>,
  \<open>_encryptBlock\<close>, \<open>_decryptBlock\<close> of AES or DES are not in the source files). By the
  primitive contract, \<open>encryptBlock(buffer, wordOffset)\<close> replaces in place the
  \<open>blockSize\<close> words at \<open>wordOffset\<close> by a function of the key given to \<open>init\<close> and
  of these words; \<open>decryptBlock\<close> likewise.
\<close>

record block_algo =
  blockSize :: nat
  keySize :: nat
  ivSize :: nat
  encryptBlock :: "wordarray \<Rightarrow> word32 list \<Rightarrow> word32 list"
  decryptBlock :: "wordarray \<Rightarrow> word32 list \<Rightarrow> word32 list"

definition read_block :: "word32 list \<Rightarrow> nat \<Rightarrow> nat \<Rightarrow> word32 list" where
  "read_block ws offset n = map (\<lambda>i. js_get ws (offset + i)) [0 ..< n]"

definition write_block :: "word32 list \<Rightarrow> nat \<Rightarrow> word32 list \<Rightarrow> word32 list" where
  "write_block ws offset blk =
     foldl (\<lambda>ws' i. js_set ws' (offset + i) (blk ! i)) ws [0 ..< length blk]"

definition encryptBlock_at :: "block_algo \<Rightarrow> wordarray \<Rightarrow> word32 list \<Rightarrow> nat \<Rightarrow> word32 list" where
  "encryptBlock_at cipher key ws offset =
     write_block ws offset (encryptBlock cipher key (read_block ws offset (blockSize cipher)))"

definition decryptBlock_at :: "block_algo \<Rightarrow> wordarray \<Rightarrow> word32 list \<Rightarrow> nat \<Rightarrow> word32 list" where
  "decryptBlock_at cipher key ws offset =
     write_block ws offset (decryptBlock cipher key (read_block ws offset (blockSize cipher)))"

text \<open>\<open>xorBlock\<close> of the CBC mode: both loops run \<open>i\<close> from 0 to \<open>blockSize - 1\<close>.\<close>

definition xorBlock :: "word32 list \<Rightarrow> word32 list \<Rightarrow> nat \<Rightarrow> nat \<Rightarrow> word32 list" where
  "xorBlock dataWords ivWords offset blockSize' =
     (if offset = 0
      then foldl (\<lambda>ws i. js_set ws i (js_get ws i XOR js_get ivWords i)) dataWords
             [0 ..< blockSize']
      else foldl (\<lambda>ws i. js_set ws (offset + i)
                     (js_get ws (offset + i)
                        XOR js_get_int ws (int offset + int i - int blockSize')))
             dataWords [0 ..< blockSize'])"

text \<open>
  The loops of \<open>CBC.encrypt\<close> (\<open>offset\<close> from 0 upwards while below the length) and of
  \<open>CBC.decrypt\<close> (\<open>offset\<close> from the last block downwards while not negative). With a
  block size of 0 neither loop ends.
\<close>

partial_function (option) CBC_encrypt_loop ::
  "block_algo \<Rightarrow> wordarray \<Rightarrow> word32 list \<Rightarrow> nat \<Rightarrow> nat \<Rightarrow> word32 list \<Rightarrow> word32 list option"
where
  "CBC_encrypt_loop cipher key ivWords messageWordsLength offset messageWords =
     (if offset < messageWordsLength
      then CBC_encrypt_loop cipher key ivWords messageWordsLength (offset + blockSize cipher)
             (encryptBlock_at cipher key
                (xorBlock messageWords ivWords offset (blockSize cipher)) offset)
      else Some messageWords)"

partial_function (option) CBC_decrypt_loop ::
  "block_algo \<Rightarrow> wordarray \<Rightarrow> word32 list \<Rightarrow> int \<Rightarrow> word32 list \<Rightarrow> word32 list option"
where
  "CBC_decrypt_loop cipher key ivWords offset ciphertextWords =
     (if 0 \<le> offset
      then CBC_decrypt_loop cipher key ivWords (offset - int (blockSize cipher))
             (xorBlock (decryptBlock_at cipher key ciphertextWords (nat offset))
                ivWords (nat offset) (blockSize cipher))
      else Some ciphertextWords)"

declare CBC_encrypt_loop.simps [code] CBC_decrypt_loop.simps [code]

text \<open>\<open>iv.words\<close> raises TypeError when no IV was configured.\<close>

definition CBC_encrypt ::
  "wordarray \<Rightarrow> block_algo \<Rightarrow> wordarray \<Rightarrow> wordarray option \<Rightarrow> wordarray result" where
  "CBC_encrypt message cipher key iv =
     (case iv of
        None \<Rightarrow> Some (Inl TypeError)
      | Some ivwa \<Rightarrow>
          (case CBC_encrypt_loop cipher key (words ivwa) (length (words message)) 0
                  (words message) of
             None \<Rightarrow> None
           | Some ws \<Rightarrow> Some (Inr (message\<lparr>words := ws\<rparr>))))"

definition CBC_decrypt ::
  "wordarray \<Rightarrow> block_algo \<Rightarrow> wordarray \<Rightarrow> wordarray option \<Rightarrow> wordarray result" where
  "CBC_decrypt ciphertext cipher key iv =
     (case iv of
        None \<Rightarrow> Some (Inl TypeError)
      | Some ivwa \<Rightarrow>
          (case CBC_decrypt_loop cipher key (words ivwa)
                  (int (length (words ciphertext)) - int (blockSize cipher))
                  (words ciphertext) of
             None \<Rightarrow> None
           | Some ws \<Rightarrow> Some (Inr (ciphertext\<lparr>words := ws\<rparr>))))"


text \<open>Blocks of an array, for the proofs: reading and replacing a slice.\<close>

definition get_blk :: "word32 list \<Rightarrow> nat \<Rightarrow> nat \<Rightarrow> word32 list" where
  "get_blk ws off n = take n (drop off ws)"

definition put_blk :: "word32 list \<Rightarrow> nat \<Rightarrow> word32 list \<Rightarrow> word32 list" where
  "put_blk ws off blk = take off ws @ blk @ drop (off + length blk) ws"

lemma length_put_blk: "off + length blk \<le> length ws \<Longrightarrow> length (put_blk ws off blk) = length ws"
  by (simp add: put_blk_def)

lemma nth_put_blk:
  "off + length blk \<le> length ws \<Longrightarrow> j < length ws \<Longrightarrow>
   put_blk ws off blk ! j = (if off \<le> j \<and> j < off + length blk then blk ! (j - off) else ws ! j)"
  by (auto simp add: put_blk_def nth_append)

lemma read_block_get:
  assumes "off + n \<le> length ws"
  shows "read_block ws off n = get_blk ws off n"
  using assms
  by (intro nth_equalityI) (simp_all add: read_block_def get_blk_def js_get_def)

lemma js_set_in_range: "i < length ws \<Longrightarrow> js_set ws i v = ws[i := v]"
  by (simp add: js_set_def)

lemma foldl_set_loop:
  assumes "off + n \<le> length ws"
    and "\<And>r i. i < n \<Longrightarrow> length r = length ws \<Longrightarrow>
           (\<And>j. j < length ws \<Longrightarrow> \<not> (off \<le> j \<and> j < off + i) \<Longrightarrow> r ! j = ws ! j) \<Longrightarrow>
           f r i = F i"
  shows "length (foldl (\<lambda>ws' i. js_set ws' (off + i) (f ws' i)) ws [0 ..< n]) = length ws
       \<and> (\<forall>j < length ws.
            foldl (\<lambda>ws' i. js_set ws' (off + i) (f ws' i)) ws [0 ..< n] ! j
            = (if off \<le> j \<and> j < off + n then F (j - off) else ws ! j))"
  using assms
proof (induction n)
  case 0
  then show ?case by auto
next
  case (Suc n)
  let ?r = "foldl (\<lambda>ws' i. js_set ws' (off + i) (f ws' i)) ws [0 ..< n]"
  have "off + n \<le> length ws" using Suc.prems(1) by simp
  moreover have "\<And>r i. i < n \<Longrightarrow> length r = length ws \<Longrightarrow>
           (\<And>j. j < length ws \<Longrightarrow> \<not> (off \<le> j \<and> j < off + i) \<Longrightarrow> r ! j = ws ! j) \<Longrightarrow>
           f r i = F i"
    using Suc.prems(2) by (meson less_SucI)
  ultimately have IH0: "length ?r = length ws
       \<and> (\<forall>j < length ws. ?r ! j = (if off \<le> j \<and> j < off + n then F (j - off) else ws ! j))"
    by (rule Suc.IH)
  then have IH: "length ?r = length ws"
    "\<And>j. j < length ws \<Longrightarrow> ?r ! j = (if off \<le> j \<and> j < off + n then F (j - off) else ws ! j)"
    by simp_all
  have in_range: "off + n < length ?r" using Suc.prems IH(1) by simp
  have fr: "f ?r n = F n"
    by (rule Suc.prems(2)) (auto simp add: IH)
  have step: "foldl (\<lambda>ws' i. js_set ws' (off + i) (f ws' i)) ws [0 ..< Suc n]
        = ?r[off + n := F n]"
    by (simp add: js_set_in_range [OF in_range] fr)
  show ?case unfolding step
  proof (intro conjI allI impI)
    show "length (?r[off + n := F n]) = length ws" using IH(1) by simp
  next
    fix j assume j: "j < length ws"
    show "?r[off + n := F n] ! j =
         (if off \<le> j \<and> j < off + Suc n then F (j - off) else ws ! j)"
    proof (cases "j = off + n")
      case True
      with j IH show ?thesis by simp
    next
      case False
      with j IH show ?thesis by (auto simp add: nth_list_update)
    qed
  qed
qed

lemma write_block_put:
  assumes "off + length blk \<le> length ws"
  shows "write_block ws off blk = put_blk ws off blk"
proof (rule nth_equalityI)
  from foldl_set_loop [OF assms, of "\<lambda>_ i. blk ! i" "\<lambda>i. blk ! i"]
  have l: "length (write_block ws off blk) = length ws"
    and n: "\<And>j. j < length ws \<Longrightarrow> write_block ws off blk ! j
           = (if off \<le> j \<and> j < off + length blk then blk ! (j - off) else ws ! j)"
    by (simp_all add: write_block_def)
  show "length (write_block ws off blk) = length (put_blk ws off blk)"
    using l assms by (simp add: length_put_blk)
  fix j assume "j < length (write_block ws off blk)"
  then have "j < length ws" using l by simp
  then show "write_block ws off blk ! j = put_blk ws off blk ! j"
    using n assms by (simp add: nth_put_blk)
qed

definition prev_blk :: "word32 list \<Rightarrow> word32 list \<Rightarrow> nat \<Rightarrow> nat \<Rightarrow> word32 list" where
  "prev_blk ws ivWords off n =
     (if off = 0 then read_block ivWords 0 n else get_blk ws (off - n) n)"

lemma length_get_blk: "off + n \<le> length ws \<Longrightarrow> length (get_blk ws off n) = n"
  by (simp add: get_blk_def)

lemma nth_get_blk: "off + n \<le> length ws \<Longrightarrow> i < n \<Longrightarrow> get_blk ws off n ! i = ws ! (off + i)"
  by (simp add: get_blk_def)

lemma length_prev_blk:
  "off = 0 \<or> n \<le> off \<Longrightarrow> off + n \<le> length ws \<Longrightarrow> length (prev_blk ws ivWords off n) = n"
  by (auto simp add: prev_blk_def read_block_def get_blk_def)

lemma xorBlock_put:
  assumes "off + n \<le> length ws" "off = 0 \<or> n \<le> off"
  shows "xorBlock ws ivWords off n
         = put_blk ws off (map2 (XOR) (get_blk ws off n) (prev_blk ws ivWords off n))"
proof -
  let ?F = "\<lambda>i. ws ! (off + i) XOR prev_blk ws ivWords off n ! i"
  define B where "B = map2 (XOR) (get_blk ws off n) (prev_blk ws ivWords off n)"
  have lenB: "length B = n" using assms by (simp add: B_def length_get_blk length_prev_blk)
  have B: "\<And>i. i < n \<Longrightarrow> B ! i = ?F i"
    using assms by (simp add: B_def length_get_blk length_prev_blk nth_get_blk)
  have loop: "length (xorBlock ws ivWords off n) = length ws
       \<and> (\<forall>j < length ws. xorBlock ws ivWords off n ! j
            = (if off \<le> j \<and> j < off + n then ?F (j - off) else ws ! j))"
  proof (cases "off = 0")
    case True
    have "length (foldl (\<lambda>ws' i. js_set ws' (0 + i) (js_get ws' i XOR js_get ivWords i)) ws [0 ..< n])
            = length ws
       \<and> (\<forall>j < length ws.
            foldl (\<lambda>ws' i. js_set ws' (0 + i) (js_get ws' i XOR js_get ivWords i)) ws [0 ..< n] ! j
            = (if 0 \<le> j \<and> j < 0 + n then ?F (j - 0) else ws ! j))"
    proof (rule foldl_set_loop)
      show "0 + n \<le> length ws" using assms by simp
    next
      fix r i assume i: "i < n" and l: "length r = length ws"
        and r: "\<And>j. j < length ws \<Longrightarrow> \<not> (0 \<le> j \<and> j < 0 + i) \<Longrightarrow> r ! j = ws ! j"
      have "i < length ws" using i assms by simp
      then have "r ! i = ws ! i" by (intro r) simp_all
      then show "js_get r i XOR js_get ivWords i = ?F i"
        using i l assms True by (simp add: js_get_def prev_blk_def read_block_def)
    qed
    with True show ?thesis by (simp add: xorBlock_def)
  next
    case False
    with assms have n: "n \<le> off" by simp
    have "length (foldl (\<lambda>ws' i. js_set ws' (off + i)
                     (js_get ws' (off + i) XOR js_get_int ws' (int off + int i - int n))) ws [0 ..< n])
            = length ws
       \<and> (\<forall>j < length ws.
            foldl (\<lambda>ws' i. js_set ws' (off + i)
                     (js_get ws' (off + i) XOR js_get_int ws' (int off + int i - int n))) ws [0 ..< n] ! j
            = (if off \<le> j \<and> j < off + n then ?F (j - off) else ws ! j))"
    proof (rule foldl_set_loop)
      show "off + n \<le> length ws" using assms by simp
    next
      fix r i assume i: "i < n" and l: "length r = length ws"
        and r: "\<And>j. j < length ws \<Longrightarrow> \<not> (off \<le> j \<and> j < off + i) \<Longrightarrow> r ! j = ws ! j"
      have a: "off + i < length ws" "off + i - n < length ws" using i assms by simp_all
      have "r ! (off + i) = ws ! (off + i)" using a by (intro r) simp_all
      moreover have "r ! (off + i - n) = ws ! (off + i - n)" using a i n by (intro r) simp_all
      moreover have "nat (int off + int i - int n) = off + i - n" "0 \<le> int off + int i - int n"
        using n by simp_all
      moreover have "get_blk ws (off - n) n ! i = ws ! (off + i - n)"
        using nth_get_blk [of "off - n" n ws i] n i assms by simp
      ultimately show "js_get r (off + i) XOR js_get_int r (int off + int i - int n) = ?F i"
        using a l False by (simp add: js_get_def js_get_int_def prev_blk_def)
    qed
    with False show ?thesis by (simp add: xorBlock_def)
  qed
  have "xorBlock ws ivWords off n = put_blk ws off B"
  proof (rule nth_equalityI)
    show "length (xorBlock ws ivWords off n) = length (put_blk ws off B)"
      using loop assms lenB by (simp add: length_put_blk)
    fix j assume "j < length (xorBlock ws ivWords off n)"
    then have j: "j < length ws" using loop by simp
    have p: "put_blk ws off B ! j = (if off \<le> j \<and> j < off + n then B ! (j - off) else ws ! j)"
      using nth_put_blk [of off B ws j] assms j lenB by simp
    have x: "xorBlock ws ivWords off n ! j
            = (if off \<le> j \<and> j < off + n then ?F (j - off) else ws ! j)"
      using loop j by simp
    show "xorBlock ws ivWords off n ! j = put_blk ws off B ! j"
    proof (cases "off \<le> j \<and> j < off + n")
      case True
      then have "j - off < n" by linarith
      from B [OF this] True show ?thesis by (simp only: p x if_True)
    next
      case False
      show ?thesis by (simp only: p x False if_False)
    qed
  qed
  then show ?thesis by (simp only: B_def)
qed


text \<open>The body of each loop, and the loops unrolled over the first \<open>m\<close> blocks.\<close>

definition enc_step :: "block_algo \<Rightarrow> wordarray \<Rightarrow> word32 list \<Rightarrow> nat \<Rightarrow> word32 list \<Rightarrow> word32 list" where
  "enc_step cipher key ivWords off ws =
     encryptBlock_at cipher key (xorBlock ws ivWords off (blockSize cipher)) off"

definition dec_step :: "block_algo \<Rightarrow> wordarray \<Rightarrow> word32 list \<Rightarrow> nat \<Rightarrow> word32 list \<Rightarrow> word32 list" where
  "dec_step cipher key ivWords off ws =
     xorBlock (decryptBlock_at cipher key ws off) ivWords off (blockSize cipher)"

fun enc_upto :: "block_algo \<Rightarrow> wordarray \<Rightarrow> word32 list \<Rightarrow> word32 list \<Rightarrow> nat \<Rightarrow> word32 list" where
  "enc_upto cipher key ivWords ws 0 = ws"
| "enc_upto cipher key ivWords ws (Suc m) =
     enc_step cipher key ivWords (m * blockSize cipher) (enc_upto cipher key ivWords ws m)"

fun dec_down :: "block_algo \<Rightarrow> wordarray \<Rightarrow> word32 list \<Rightarrow> word32 list \<Rightarrow> nat \<Rightarrow> word32 list" where
  "dec_down cipher key ivWords ws 0 = ws"
| "dec_down cipher key ivWords ws (Suc m) =
     dec_down cipher key ivWords (dec_step cipher key ivWords (m * blockSize cipher) ws) m"

text \<open>The primitive's \<open>decryptBlock\<close> inverts its \<open>encryptBlock\<close> on blocks of its size.\<close>

definition inverts :: "block_algo \<Rightarrow> bool" where
  "inverts cipher \<longleftrightarrow>
     (\<forall>key blk. length blk = blockSize cipher \<longrightarrow>
        length (encryptBlock cipher key blk) = blockSize cipher
        \<and> decryptBlock cipher key (encryptBlock cipher key blk) = blk)"

lemma get_put_same: "off + length blk \<le> length ws \<Longrightarrow> get_blk (put_blk ws off blk) off (length blk) = blk"
  by (simp add: get_blk_def put_blk_def)

lemma put_put_same:
  "length b1 = length b2 \<Longrightarrow> off + length b1 \<le> length ws \<Longrightarrow>
   put_blk (put_blk ws off b1) off b2 = put_blk ws off b2"
  by (simp add: put_blk_def)

lemma put_get_same: "off + n \<le> length ws \<Longrightarrow> put_blk ws off (get_blk ws off n) = ws"
  by (simp add: put_blk_def get_blk_def) (metis append_take_drop_id drop_drop add.commute)

lemma prev_put_same:
  assumes "off = 0 \<or> length blk \<le> off" "off + length blk \<le> length ws"
  shows "prev_blk (put_blk ws off blk) ivWords off (length blk) = prev_blk ws ivWords off (length blk)"
proof (cases "off = 0")
  case True
  then show ?thesis by (simp add: prev_blk_def)
next
  case False
  with assms have "length blk \<le> off" by simp
  with assms(2) have "get_blk (put_blk ws off blk) (off - length blk) (length blk)
        = get_blk ws (off - length blk) (length blk)"
    by (simp add: get_blk_def put_blk_def drop_take)
  with False show ?thesis by (simp add: prev_blk_def)
qed

lemma map2_xor_cancel:
  "length B = length P \<Longrightarrow> map2 (XOR) (map2 (XOR) B P) P = (B :: word32 list)"
  by (intro nth_equalityI) (simp_all add: xor.assoc)

lemma enc_step_eq:
  assumes "inverts cipher" "off + blockSize cipher \<le> length ws" "off = 0 \<or> blockSize cipher \<le> off"
  shows "enc_step cipher key ivWords off ws
         = put_blk ws off (encryptBlock cipher key
              (map2 (XOR) (get_blk ws off (blockSize cipher))
                          (prev_blk ws ivWords off (blockSize cipher))))"
proof -
  define n where "n = blockSize cipher"
  define X where "X = map2 (XOR) (get_blk ws off n) (prev_blk ws ivWords off n)"
  have lenX: "length X = n"
    using assms by (simp add: X_def n_def length_get_blk length_prev_blk)
  then have lenE: "length (encryptBlock cipher key X) = n"
    using assms(1) by (simp add: inverts_def n_def)
  have x: "xorBlock ws ivWords off n = put_blk ws off X"
    unfolding X_def using assms by (intro xorBlock_put) (simp_all add: n_def)
  have l1: "length (put_blk ws off X) = length ws"
    using assms lenX by (simp add: length_put_blk n_def)
  have r: "read_block (put_blk ws off X) off n = X"
    using read_block_get [of off n "put_blk ws off X"] get_put_same [of off X ws] assms lenX l1
    by (simp add: n_def)
  have "encryptBlock_at cipher key (put_blk ws off X) off
        = put_blk (put_blk ws off X) off (encryptBlock cipher key X)"
    unfolding encryptBlock_at_def n_def [symmetric] r
    using assms l1 lenE by (intro write_block_put) (simp add: n_def)
  also have "\<dots> = put_blk ws off (encryptBlock cipher key X)"
    using assms lenX lenE by (intro put_put_same) (simp_all add: n_def)
  finally show ?thesis
    unfolding enc_step_def n_def [symmetric] x X_def .
qed

lemma dec_enc_step:
  assumes "inverts cipher" "off + blockSize cipher \<le> length ws" "off = 0 \<or> blockSize cipher \<le> off"
  shows "dec_step cipher key ivWords off (enc_step cipher key ivWords off ws) = ws"
    and "length (enc_step cipher key ivWords off ws) = length ws"
proof -
  define n where "n = blockSize cipher"
  define B where "B = get_blk ws off n"
  define P where "P = prev_blk ws ivWords off n"
  define X where "X = map2 (XOR) B P"
  define ws1 where "ws1 = put_blk ws off (encryptBlock cipher key X)"
  define ws2 where "ws2 = put_blk ws off X"
  have a: "off + n \<le> length ws" "off = 0 \<or> n \<le> off" using assms by (simp_all add: n_def)
  have lenB: "length B = n" and lenP: "length P = n"
    using a by (simp_all add: B_def P_def length_get_blk length_prev_blk)
  then have lenX: "length X = n" by (simp add: X_def)
  then have lenE: "length (encryptBlock cipher key X) = n"
    and DE: "decryptBlock cipher key (encryptBlock cipher key X) = X"
    using assms(1) by (simp_all add: inverts_def n_def)
  have e: "enc_step cipher key ivWords off ws = ws1"
    unfolding ws1_def X_def B_def P_def n_def by (rule enc_step_eq [OF assms])
  have l1: "length ws1 = length ws" using a lenE by (simp add: ws1_def length_put_blk)
  show "length (enc_step cipher key ivWords off ws) = length ws" unfolding e by (rule l1)
  have l2: "length ws2 = length ws" using a lenX by (simp add: ws2_def length_put_blk)
  have "read_block ws1 off n = encryptBlock cipher key X"
    using read_block_get [of off n ws1] get_put_same [of off "encryptBlock cipher key X" ws]
      a lenE l1 by (simp add: ws1_def)
  then have "decryptBlock_at cipher key ws1 off = write_block ws1 off X"
    by (simp add: decryptBlock_at_def n_def [symmetric] DE)
  also have "\<dots> = put_blk ws1 off X" using a l1 lenX by (intro write_block_put) simp
  also have "\<dots> = ws2" unfolding ws1_def ws2_def
    using a lenX lenE by (intro put_put_same) simp_all
  finally have d: "decryptBlock_at cipher key ws1 off = ws2" .
  have g2: "get_blk ws2 off n = X"
    using get_put_same [of off X ws] a lenX by (simp add: ws2_def)
  have p2: "prev_blk ws2 ivWords off n = P"
    using prev_put_same [of off X ws ivWords] a lenX by (simp add: ws2_def P_def)
  have "xorBlock ws2 ivWords off n = put_blk ws2 off (map2 (XOR) X P)"
    using xorBlock_put [of off n ws2 ivWords] a l2 by (simp add: g2 p2)
  also have "map2 (XOR) X P = B" unfolding X_def using lenB lenP by (intro map2_xor_cancel) simp
  also have "put_blk ws2 off B = put_blk ws off B" unfolding ws2_def
    using a lenX lenB by (intro put_put_same) simp_all
  also have "\<dots> = ws" unfolding B_def using a by (intro put_get_same)
  finally show "dec_step cipher key ivWords off (enc_step cipher key ivWords off ws) = ws"
    unfolding e dec_step_def d n_def [symmetric] .
qed


lemma block_offset: "m * n = 0 \<or> n \<le> m * (n::nat)"
  by (cases m) simp_all

lemma length_enc_upto:
  assumes "inverts cipher" "m * blockSize cipher \<le> length ws"
  shows "length (enc_upto cipher key ivWords ws m) = length ws"
  using assms(2)
proof (induction m)
  case 0
  then show ?case by simp
next
  case (Suc m)
  then have IH: "length (enc_upto cipher key ivWords ws m) = length ws" by simp
  from Suc.prems have "m * blockSize cipher + blockSize cipher \<le> length ws" by (simp add: ac_simps)
  then show ?case
    using dec_enc_step(2) [OF assms(1) _ block_offset, of m "enc_upto cipher key ivWords ws m"] IH
    by simp
qed

lemma dec_down_enc_upto:
  assumes "inverts cipher" "m * blockSize cipher \<le> length ws"
  shows "dec_down cipher key ivWords (enc_upto cipher key ivWords ws m) m = ws"
  using assms(2)
proof (induction m)
  case 0
  then show ?case by simp
next
  case (Suc m)
  then have IH: "dec_down cipher key ivWords (enc_upto cipher key ivWords ws m) m = ws" by simp
  from Suc.prems have b: "m * blockSize cipher + blockSize cipher \<le> length ws"
    "m * blockSize cipher \<le> length ws" by (simp_all add: ac_simps)
  have l: "length (enc_upto cipher key ivWords ws m) = length ws"
    by (rule length_enc_upto [OF assms(1) b(2)])
  show ?case
    using dec_enc_step(1) [OF assms(1) _ block_offset, of m "enc_upto cipher key ivWords ws m"] b l IH
    by simp
qed

lemma CBC_encrypt_loop_eq:
  assumes "0 < blockSize cipher" "k \<le> n"
  shows "CBC_encrypt_loop cipher key ivWords (n * blockSize cipher) (k * blockSize cipher)
           (enc_upto cipher key ivWords ws k)
         = Some (enc_upto cipher key ivWords ws n)"
  using assms(2)
proof (induction "n - k" arbitrary: k)
  case 0
  then have "k = n" by simp
  then show ?case by (subst CBC_encrypt_loop.simps) simp
next
  case (Suc d)
  then have k: "k < n" "d = n - Suc k" "Suc k \<le> n" by simp_all
  then have lt: "k * blockSize cipher < n * blockSize cipher" using assms(1) by simp
  have "CBC_encrypt_loop cipher key ivWords (n * blockSize cipher) (k * blockSize cipher)
           (enc_upto cipher key ivWords ws k)
     = CBC_encrypt_loop cipher key ivWords (n * blockSize cipher) (Suc k * blockSize cipher)
           (enc_upto cipher key ivWords ws (Suc k))"
    using k(1) assms(1) by (subst CBC_encrypt_loop.simps) (simp add: enc_step_def ac_simps)
  also have "\<dots> = Some (enc_upto cipher key ivWords ws n)"
    by (rule Suc.hyps(1) [OF k(2) k(3)])
  finally show ?case .
qed

lemma CBC_decrypt_loop_eq:
  assumes "0 < blockSize cipher"
  shows "CBC_decrypt_loop cipher key ivWords
           (int (m * blockSize cipher) - int (blockSize cipher)) ws
         = Some (dec_down cipher key ivWords ws m)"
proof (induction m arbitrary: ws)
  case 0
  show ?case using assms by (subst CBC_decrypt_loop.simps) simp
next
  case (Suc m)
  have o: "int (Suc m * blockSize cipher) - int (blockSize cipher) = int (m * blockSize cipher)"
    by simp
  show ?case unfolding o
    by (subst CBC_decrypt_loop.simps) (simp add: dec_step_def [symmetric] Suc.IH del: of_nat_mult)
qed

section \<open>core.js: encoders\<close>

text \<open>
  A string is a list of 8-bit character codes: the code units of a JavaScript string
  that are below 256. \<open>Latin1.fromString\<close> starts from an empty array and ORs each
  character code into its byte lane.
\<close>

definition Latin1_fromString :: "string \<Rightarrow> wordarray" where
  "Latin1_fromString latin1Str =
     \<lparr>words = foldl (\<lambda>ws i. js_set ws (js_ushr (int i) 2)
                       (js_get ws (js_ushr (int i) 2)
                          OR w_shl (of_nat (of_char (latin1Str ! i))) (24 - int (i mod 4) * 8)))
                [] [0 ..< length latin1Str],
      sigBytes = int (length latin1Str)\<rparr>"

text \<open>
  \<open>Utf8.fromString\<close> is \<open>Latin1.fromString(unescape(encodeURIComponent(s)))\<close>: the
  UTF-8 bytes of the string, one byte for a code below 128 and two for the others.
\<close>

definition utf8_encode :: "string \<Rightarrow> string" where
  "utf8_encode s =
     concat (map (\<lambda>c. if (of_char c :: nat) < 128 then [c]
                       else [char_of (192 + (of_char c :: nat) div 64),
                             char_of (128 + (of_char c :: nat) mod 64)]) s)"

definition Utf8_fromString :: "string \<Rightarrow> wordarray" where
  "Utf8_fromString utf8Str = Latin1_fromString (utf8_encode utf8Str)"

text \<open>
  \<open>parseInt(s, 16)\<close>: leading white space is skipped, then a sign and a \<open>0x\<close> prefix
  are read, then the longest run of hex digits; the result is NaN (\<open>None\<close>) when there
  is no digit.
\<close>

definition hex_digit :: "char \<Rightarrow> int option" where
  "hex_digit c =
     (let n = (of_char c :: nat) in
      if 48 \<le> n \<and> n \<le> 57 then Some (int n - 48)
      else if 97 \<le> n \<and> n \<le> 102 then Some (int n - 87)
      else if 65 \<le> n \<and> n \<le> 70 then Some (int n - 55)
      else None)"

definition is_white :: "char \<Rightarrow> bool" where
  "is_white c = ((of_char c :: nat) \<in> {9, 10, 11, 12, 13, 32, 160})"

fun hex_value :: "int \<Rightarrow> string \<Rightarrow> int" where
  "hex_value acc [] = acc"
| "hex_value acc (c # cs) =
     (case hex_digit c of None \<Rightarrow> acc | Some d \<Rightarrow> hex_value (acc * 16 + d) cs)"

definition parseInt16 :: "string \<Rightarrow> int option" where
  "parseInt16 str =
     (let s1 = dropWhile is_white str;
          sign = (if take 1 s1 = ''-'' then - 1 else 1);
          s2 = (if take 1 s1 = ''-'' \<or> take 1 s1 = ''+'' then drop 1 s1 else s1);
          s3 = (if take 2 s2 = ''0x'' \<or> take 2 s2 = ''0X'' then drop 2 s2 else s2)
      in case s3 of
           [] \<Rightarrow> None
         | c # cs \<Rightarrow> (case hex_digit c of None \<Rightarrow> None | Some d \<Rightarrow> Some (sign * hex_value 0 s3)))"

text \<open>
  \<open>Hex.fromString\<close> returns \<open>WordArray.create(words, hexStrLength / 2)\<close>: for a string of
  odd length \<open>sigBytes\<close> is not a whole number. A \<open>WordArray\<close> as JavaScript holds it has
  any number as its \<open>sigBytes\<close>.
\<close>

record jsarray =
  js_words :: "word32 list"
  js_sigBytes :: rat

text \<open>
  \<open>Hex.fromString\<close>: the loop runs \<open>i\<close> over 0, 2, 4, ... below the length (\<open>i = 2 * j\<close>);
  \<open>substr(i, 2)\<close> is one character at the end of a string of odd length; NaN shifts as
  0; \<open>sigBytes\<close> is half the length.
\<close>

definition Hex_fromString :: "string \<Rightarrow> jsarray" where
  "Hex_fromString hexStr =
     (let hexStrLength = length hexStr;
          ws = foldl (\<lambda>ws j.
                   (let i = 2 * j;
                        v = (case parseInt16 (take 2 (drop i hexStr)) of
                               None \<Rightarrow> 0 | Some n \<Rightarrow> (word_of_int n :: word32))
                    in js_set ws (js_ushr (int i) 3)
                         (js_get ws (js_ushr (int i) 3) OR w_shl v (24 - int (i mod 8) * 4))))
                 [] [0 ..< (hexStrLength + 1) div 2]
      in \<lparr>js_words = ws, js_sigBytes = of_nat hexStrLength / 2\<rparr>)"

text \<open>The default encoder of \<open>WordArray\<close>, set at the end of core.js, is \<open>Hex\<close>.\<close>

definition WordArray_encoder_fromString_js :: "string \<Rightarrow> jsarray" where
  "WordArray_encoder_fromString_js = Hex_fromString"

text \<open>
  The buffers of the sections above and below have a whole number of significant bytes.
  As such a buffer, the decoded string is the buffer itself when its \<open>sigBytes\<close> is whole;
  the run of \<open>Cipher.decrypt\<close> on a string of odd length is followed in the section on
  decrypting a string.
\<close>

definition integral :: "jsarray \<Rightarrow> error + wordarray" where
  "integral a =
     (if of_int \<lfloor>js_sigBytes a\<rfloor> = js_sigBytes a
      then Inr \<lparr>words = js_words a, sigBytes = \<lfloor>js_sigBytes a\<rfloor>\<rparr>
      else Inl NotAnInteger)"

definition WordArray_encoder_fromString :: "string \<Rightarrow> error + wordarray" where
  "WordArray_encoder_fromString hexStr = integral (WordArray_encoder_fromString_js hexStr)"

section \<open>cipher-core.js: the cipher templates\<close>

text \<open>
  The strategies the source defines: the padding \<open>C.pad.PKCS5\<close> and the mode
  \<open>C.mode.CBC\<close>. A configuration holds what the caller passes; \<open>_cfg.extend(cfg)\<close>
  puts it over the defaults of the cipher template.
\<close>

datatype padding = PKCS5
datatype mode = CBC

record cfg =
  cfg_iv :: "wordarray option"
  cfg_padding :: "padding option"
  cfg_mode :: "mode option"

datatype input = Str string | WA wordarray

text \<open>
  Modelled from the spec: a concrete stream cipher supplies \<open>_doEncrypt\<close> (none is in
  the source files); the stream template uses it for both directions.
\<close>

record stream_algo =
  stream_keySize :: nat
  stream_ivSize :: nat
  stream_doEncrypt :: "wordarray \<Rightarrow> wordarray \<Rightarrow> cfg \<Rightarrow> wordarray result"

datatype cipher = Block block_algo | Stream stream_algo

definition padding_pad :: "padding \<Rightarrow> wordarray \<Rightarrow> nat \<Rightarrow> error + wordarray" where
  "padding_pad p = (case p of PKCS5 \<Rightarrow> PKCS5_pad)"

definition padding_unpad :: "padding \<Rightarrow> wordarray \<Rightarrow> wordarray" where
  "padding_unpad p = (case p of PKCS5 \<Rightarrow> PKCS5_unpad)"

definition mode_encrypt ::
  "mode \<Rightarrow> wordarray \<Rightarrow> block_algo \<Rightarrow> wordarray \<Rightarrow> wordarray option \<Rightarrow> wordarray result" where
  "mode_encrypt m = (case m of CBC \<Rightarrow> CBC_encrypt)"

definition mode_decrypt ::
  "mode \<Rightarrow> wordarray \<Rightarrow> block_algo \<Rightarrow> wordarray \<Rightarrow> wordarray option \<Rightarrow> wordarray result" where
  "mode_decrypt m = (case m of CBC \<Rightarrow> CBC_decrypt)"

definition Cipher_cfg :: "cipher \<Rightarrow> cfg \<Rightarrow> cfg" where
  "Cipher_cfg c overrides =
     (case c of
        Stream s \<Rightarrow> overrides
      | Block b \<Rightarrow>
          overrides\<lparr>cfg_padding := (case cfg_padding overrides of None \<Rightarrow> Some PKCS5 | Some p \<Rightarrow> Some p),
                    cfg_mode := (case cfg_mode overrides of None \<Rightarrow> Some CBC | Some m \<Rightarrow> Some m)\<rparr>)"

text \<open>
  The block template. A missing strategy would make \<open>cfg.padding.pad\<close> or
  \<open>cfg.mode.encrypt\<close> raise TypeError.
\<close>

definition Block_doEncrypt :: "block_algo \<Rightarrow> wordarray \<Rightarrow> wordarray \<Rightarrow> cfg \<Rightarrow> wordarray result" where
  "Block_doEncrypt this message key cfg =
     (case cfg_padding cfg of
        None \<Rightarrow> Some (Inl TypeError)
      | Some p \<Rightarrow>
          (case padding_pad p message (blockSize this) of
             Inl e \<Rightarrow> Some (Inl e)
           | Inr padded \<Rightarrow>
               (case cfg_mode cfg of
                  None \<Rightarrow> Some (Inl TypeError)
                | Some m \<Rightarrow> mode_encrypt m padded this key (cfg_iv cfg))))"

definition Block_doDecrypt :: "block_algo \<Rightarrow> wordarray \<Rightarrow> wordarray \<Rightarrow> cfg \<Rightarrow> wordarray result" where
  "Block_doDecrypt this ciphertext key cfg =
     (case cfg_mode cfg of
        None \<Rightarrow> Some (Inl TypeError)
      | Some m \<Rightarrow>
          (case mode_decrypt m ciphertext this key (cfg_iv cfg) of
             None \<Rightarrow> None
           | Some (Inl e) \<Rightarrow> Some (Inl e)
           | Some (Inr decrypted) \<Rightarrow>
               (case cfg_padding cfg of
                  None \<Rightarrow> Some (Inl TypeError)
                | Some p \<Rightarrow> Some (Inr (padding_unpad p decrypted)))))"

definition doEncrypt :: "cipher \<Rightarrow> wordarray \<Rightarrow> wordarray \<Rightarrow> cfg \<Rightarrow> wordarray result" where
  "doEncrypt c = (case c of Block b \<Rightarrow> Block_doEncrypt b | Stream s \<Rightarrow> stream_doEncrypt s)"

definition doDecrypt :: "cipher \<Rightarrow> wordarray \<Rightarrow> wordarray \<Rightarrow> cfg \<Rightarrow> wordarray result" where
  "doDecrypt c = (case c of Block b \<Rightarrow> Block_doDecrypt b | Stream s \<Rightarrow> stream_doEncrypt s)"

text \<open>
  \<open>Cipher.encrypt\<close> and \<open>Cipher.decrypt\<close>: a string is decoded (UTF-8 for a message, the
  default encoder of \<open>WordArray\<close> for a ciphertext), a buffer is cloned.
\<close>

definition Cipher_encrypt :: "cipher \<Rightarrow> input \<Rightarrow> wordarray \<Rightarrow> cfg \<Rightarrow> wordarray result" where
  "Cipher_encrypt this message key cfg =
     (let cfg' = Cipher_cfg this cfg;
          message' = (case message of Str s \<Rightarrow> Utf8_fromString s | WA m \<Rightarrow> clone m)
      in doEncrypt this message' key cfg')"

definition Cipher_decrypt :: "cipher \<Rightarrow> input \<Rightarrow> wordarray \<Rightarrow> cfg \<Rightarrow> wordarray result" where
  "Cipher_decrypt this ciphertext key cfg =
     (let cfg' = Cipher_cfg this cfg
      in case (case ciphertext of Str s \<Rightarrow> WordArray_encoder_fromString s
                                | WA c \<Rightarrow> Inr (clone c)) of
           Inl e \<Rightarrow> Some (Inl e)
         | Inr ciphertext' \<Rightarrow> doDecrypt this ciphertext' key cfg')"

definition cipher_keySize :: "cipher \<Rightarrow> nat" where
  "cipher_keySize c = (case c of Block b \<Rightarrow> keySize b | Stream s \<Rightarrow> stream_keySize s)"

definition cipher_ivSize :: "cipher \<Rightarrow> nat" where
  "cipher_ivSize c = (case c of Block b \<Rightarrow> ivSize b | Stream s \<Rightarrow> stream_ivSize s)"

lemma clone_id [simp]: "clone (m :: wordarray) = m"
  by (simp add: clone_def)

lemma Block_cfg:
  "cfg_padding (Cipher_cfg (Block b) cfg) = Some PKCS5"
  "cfg_mode (Cipher_cfg (Block b) cfg) = Some CBC"
  "cfg_iv (Cipher_cfg (Block b) cfg) = cfg_iv cfg"
proof -
  show "cfg_padding (Cipher_cfg (Block b) cfg) = Some PKCS5"
    by (cases "cfg_padding cfg") (auto simp add: Cipher_cfg_def intro: padding.exhaust)
  show "cfg_mode (Cipher_cfg (Block b) cfg) = Some CBC"
    by (cases "cfg_mode cfg") (auto simp add: Cipher_cfg_def intro: mode.exhaust)
  show "cfg_iv (Cipher_cfg (Block b) cfg) = cfg_iv cfg"
    by (simp add: Cipher_cfg_def)
qed

lemma Cipher_roundtrip_aux:
  assumes inv: "inverts c"
    and bs: "0 < blockSize c" "blockSize c \<le> 63"
    and m: "0 \<le> sigBytes m" "sigBytes m + int (blockSize c) * 4 < 2 ^ 32"
    and iv: "cfg_iv cfg = Some ivwa"
  shows "\<exists>ct pt. Cipher_encrypt (Block c) (WA m) key cfg = Some (Inr ct)
           \<and> Cipher_decrypt (Block c) (WA ct) key cfg = Some (Inr pt)
           \<and> sigBytes pt = sigBytes m \<and> wa_bytes pt = wa_bytes m"
proof -
  define n where "n = blockSize c"
  define B where "B = wa_bytes m @ replicate (nat (nPadding m n)) (word_of_int (nPadding m n) :: 8 word)"
  define p where "p = \<lparr>words = pack B, sigBytes = sigBytes m + nPadding m n\<rparr>"
  define N where "N = nat (sigBytes m div (int n * 4) + 1)"
  define W where "W = enc_upto c key (words ivwa) (pack B) N"
  define ct where "ct = p\<lparr>words := W\<rparr>"
  have r: "PKCS5_pad m n = Inr p" "True"
    "PKCS5_unpad p = p\<lparr>sigBytes := sigBytes m\<rparr>"
    "wa_bytes (p\<lparr>sigBytes := sigBytes m\<rparr>) = wa_bytes m"
    "sigBytes p = 4 * (int n * (sigBytes m div (int n * 4) + 1))"
    using PKCS5_pad_result [OF bs m] by (simp_all add: p_def B_def n_def)
  have npos: "0 \<le> sigBytes m div (int n * 4)" using m(1) bs(1) by (simp add: n_def pos_imp_zdiv_nonneg_iff)
  then have L: "sigBytes p = 4 * int (n * N)" using r(5) by (simp add: N_def)
  have "int (length B) = sigBytes p"
    using m nPadding_range [OF bs(1), of m] by (simp add: B_def p_def n_def)
  then have "length B = 4 * (n * N)" using L by linarith
  then have lenW0: "length (pack B) = N * n" by (simp add: ac_simps)
  have lenW: "length W = N * n"
    unfolding W_def using length_enc_upto [OF inv, of N "pack B" key "words ivwa"] lenW0
    by (simp add: n_def)
  have wp: "words p = pack B" and sp: "p\<lparr>words := pack B\<rparr> = p" by (simp_all add: p_def)
  have enc_loop: "CBC_encrypt_loop c key (words ivwa) (length (words p)) 0 (words p) = Some W"
    using CBC_encrypt_loop_eq [OF bs(1), of 0 N key "words ivwa" "pack B"]
    unfolding wp lenW0 by (simp add: W_def n_def)
  have pad: "padding_pad PKCS5 m (blockSize c) = Inr p"
    using r(1) by (simp add: padding_pad_def n_def)
  have cbc: "mode_encrypt CBC p c key (Some ivwa) = Some (Inr ct)"
    by (simp add: mode_encrypt_def CBC_encrypt_def enc_loop ct_def)
  have enc: "Cipher_encrypt (Block c) (WA m) key cfg = Some (Inr ct)"
    unfolding Cipher_encrypt_def Let_def doEncrypt_def Block_doEncrypt_def
    by (simp add: Block_cfg iv pad cbc)
  have wc: "words ct = W" and sc: "ct\<lparr>words := pack B\<rparr> = p" by (simp_all add: ct_def p_def)
  have "dec_down c key (words ivwa) W N = pack B"
    unfolding W_def using dec_down_enc_upto [OF inv, of N "pack B" key "words ivwa"]
    unfolding lenW0 by (simp add: n_def)
  then have dec_loop: "CBC_decrypt_loop c key (words ivwa)
       (int (length (words ct)) - int (blockSize c)) (words ct) = Some (pack B)"
    using CBC_decrypt_loop_eq [OF bs(1), of key "words ivwa" N W]
    unfolding wc lenW by (simp add: n_def)
  have cbcd: "mode_decrypt CBC ct c key (Some ivwa) = Some (Inr p)"
    by (simp add: mode_decrypt_def CBC_decrypt_def dec_loop sc)
  have unp: "padding_unpad PKCS5 p = p\<lparr>sigBytes := sigBytes m\<rparr>"
    using r(3) by (simp add: padding_unpad_def)
  have dec: "Cipher_decrypt (Block c) (WA ct) key cfg
             = Some (Inr (p\<lparr>sigBytes := sigBytes m\<rparr>))"
    unfolding Cipher_decrypt_def Let_def doDecrypt_def Block_doDecrypt_def
    by (simp add: Block_cfg iv cbcd unp)
  show ?thesis
    using enc dec r(4) by (intro exI [of _ ct] exI [of _ "p\<lparr>sigBytes := sigBytes m\<rparr>"]) simp
qed

text \<open>
  Two block ciphers for the examples: one of 2 words that reverses the block and adds
  the first key word, and one of 64 words that leaves the block as it is.
\<close>

definition toy_cipher :: block_algo where
  "toy_cipher = \<lparr>blockSize = 2, keySize = 1, ivSize = 2,
     encryptBlock = (\<lambda>key blk. map (\<lambda>w. w + js_get (words key) 0) (rev blk)),
     decryptBlock = (\<lambda>key blk. rev (map (\<lambda>w. w - js_get (words key) 0) blk))\<rparr>"

definition wide_cipher :: block_algo where
  "wide_cipher = \<lparr>blockSize = 64, keySize = 1, ivSize = 64,
     encryptBlock = (\<lambda>key blk. blk), decryptBlock = (\<lambda>key blk. blk)\<rparr>"

lemma inverts_toy_cipher: "inverts toy_cipher"
  by (simp add: inverts_def toy_cipher_def rev_map [symmetric] comp_def)

lemma inverts_wide_cipher: "inverts wide_cipher"
  by (simp add: inverts_def wide_cipher_def)

text \<open>
  Claim C1, amended. For every block cipher with a block size of 1 to 63 words whose
  \<open>decryptBlock\<close> inverts \<open>encryptBlock\<close> on blocks, every key, every configuration with an
  IV and with the CBC mode and the PKCS #5/7 padding chosen or left to the defaults, and
  every buffer \<open>m\<close> with \<open>0 \<le> sigBytes m\<close> that stays below \<open>2 ^ 32\<close> bytes when padded:
  \<open>encrypt\<close> returns a ciphertext, \<open>decrypt\<close> of it returns a buffer, and this buffer has
  the \<open>sigBytes\<close> and the significant bytes of \<open>m\<close>.
\<close>

theorem Cipher_roundtrip:
  assumes "inverts c"
    and "0 < blockSize c" "blockSize c \<le> 63"
    and "0 \<le> sigBytes m" "sigBytes m + int (blockSize c) * 4 < 2 ^ 32"
    and "cfg_iv cfg = Some ivwa"
  shows "\<exists>ct pt. Cipher_encrypt (Block c) (WA m) key cfg = Some (Inr ct)
           \<and> Cipher_decrypt (Block c) (WA ct) key cfg = Some (Inr pt)
           \<and> sigBytes pt = sigBytes m \<and> wa_bytes pt = wa_bytes m"
  using assms by (rule Cipher_roundtrip_aux)

text \<open>The theorem of C1 at the five bytes \<open>abcde\<close>, the cipher of 2 words and key 7.\<close>

theorem Cipher_roundtrip_witness:
  "inverts toy_cipher \<and> 0 < blockSize toy_cipher \<and> blockSize toy_cipher \<le> 63
   \<and> 0 \<le> sigBytes \<lparr>words = [0x61626364, 0x65000000], sigBytes = 5\<rparr>
   \<and> sigBytes \<lparr>words = [0x61626364, 0x65000000], sigBytes = 5\<rparr>
         + int (blockSize toy_cipher) * 4 < 2 ^ 32
   \<and> Cipher_encrypt (Block toy_cipher) (WA \<lparr>words = [0x61626364, 0x65000000], sigBytes = 5\<rparr>)
         \<lparr>words = [7], sigBytes = 4\<rparr>
         \<lparr>cfg_iv = Some \<lparr>words = [1, 2], sigBytes = 8\<rparr>, cfg_padding = None, cfg_mode = None\<rparr>
       = Some (Inr \<lparr>words = [0x65030308, 0x6162636C], sigBytes = 8\<rparr>)
   \<and> Cipher_decrypt (Block toy_cipher) (WA \<lparr>words = [0x65030308, 0x6162636C], sigBytes = 8\<rparr>)
         \<lparr>words = [7], sigBytes = 4\<rparr>
         \<lparr>cfg_iv = Some \<lparr>words = [1, 2], sigBytes = 8\<rparr>, cfg_padding = None, cfg_mode = None\<rparr>
       = Some (Inr \<lparr>words = [0x61626364, 0x65030303], sigBytes = 5\<rparr>)
   \<and> wa_bytes \<lparr>words = [0x61626364, 0x65030303], sigBytes = 5\<rparr>
       = wa_bytes \<lparr>words = [0x61626364, 0x65000000], sigBytes = 5\<rparr>"
proof -
  let ?m = "\<lparr>words = [0x61626364, 0x65000000], sigBytes = 5\<rparr>"
  let ?key = "\<lparr>words = [7], sigBytes = 4\<rparr>"
  let ?iv = "\<lparr>words = [1, 2], sigBytes = 8\<rparr>"
  let ?cfg = "\<lparr>cfg_iv = Some ?iv, cfg_padding = None, cfg_mode = None\<rparr>"
  have b: "0 < blockSize toy_cipher" "blockSize toy_cipher \<le> 63"
    by (simp_all add: toy_cipher_def)
  have m: "0 \<le> sigBytes ?m" "sigBytes ?m + int (blockSize toy_cipher) * 4 < 2 ^ 32"
    by (simp_all add: toy_cipher_def)
  have e: "Cipher_encrypt (Block toy_cipher) (WA ?m) ?key ?cfg
       = Some (Inr \<lparr>words = [0x65030308, 0x6162636C], sigBytes = 8\<rparr>)"
    by code_simp
  from Cipher_roundtrip [OF inverts_toy_cipher b m, of ?cfg ?iv ?key]
  obtain pt where "Cipher_decrypt (Block toy_cipher)
        (WA \<lparr>words = [0x65030308, 0x6162636C], sigBytes = 8\<rparr>) ?key ?cfg = Some (Inr pt)"
     "sigBytes pt = sigBytes ?m" "wa_bytes pt = wa_bytes ?m"
    unfolding e by auto
  moreover have "Cipher_decrypt (Block toy_cipher)
        (WA \<lparr>words = [0x65030308, 0x6162636C], sigBytes = 8\<rparr>) ?key ?cfg
       = Some (Inr \<lparr>words = [0x61626364, 0x65030303], sigBytes = 5\<rparr>)"
    by code_simp
  ultimately show ?thesis using inverts_toy_cipher b m e by simp
qed

text \<open>
  Claim C1 as stated fails for a block cipher of 64 words: the empty message is padded
  with 256 bytes \<open>01 01 01 00\<close>, and decrypting the ciphertext returns all 256 bytes.
\<close>

theorem Cipher_roundtrip_wide_counterexample:
  "inverts wide_cipher
   \<and> Cipher_encrypt (Block wide_cipher) (WA \<lparr>words = [], sigBytes = 0\<rparr>)
         \<lparr>words = [0], sigBytes = 4\<rparr>
         \<lparr>cfg_iv = Some \<lparr>words = replicate 64 0, sigBytes = 256\<rparr>,
          cfg_padding = None, cfg_mode = None\<rparr>
       = Some (Inr \<lparr>words = replicate 64 0x01010100, sigBytes = 256\<rparr>)
   \<and> Cipher_decrypt (Block wide_cipher) (WA \<lparr>words = replicate 64 0x01010100, sigBytes = 256\<rparr>)
         \<lparr>words = [0], sigBytes = 4\<rparr>
         \<lparr>cfg_iv = Some \<lparr>words = replicate 64 0, sigBytes = 256\<rparr>,
          cfg_padding = None, cfg_mode = None\<rparr>
       = Some (Inr \<lparr>words = replicate 64 0x01010100, sigBytes = 256\<rparr>)"
proof (intro conjI)
  show "inverts wide_cipher" by (rule inverts_wide_cipher)
  show "Cipher_encrypt (Block wide_cipher) (WA \<lparr>words = [], sigBytes = 0\<rparr>)
         \<lparr>words = [0], sigBytes = 4\<rparr>
         \<lparr>cfg_iv = Some \<lparr>words = replicate 64 0, sigBytes = 256\<rparr>,
          cfg_padding = None, cfg_mode = None\<rparr>
       = Some (Inr \<lparr>words = replicate 64 0x01010100, sigBytes = 256\<rparr>)"
    by code_simp
  show "Cipher_decrypt (Block wide_cipher) (WA \<lparr>words = replicate 64 0x01010100, sigBytes = 256\<rparr>)
         \<lparr>words = [0], sigBytes = 4\<rparr>
         \<lparr>cfg_iv = Some \<lparr>words = replicate 64 0, sigBytes = 256\<rparr>,
          cfg_padding = None, cfg_mode = None\<rparr>
       = Some (Inr \<lparr>words = replicate 64 0x01010100, sigBytes = 256\<rparr>)"
    by code_simp
qed

section \<open>The Base64 encoder\<close>

text \<open>
  Modelled from the spec: the Base64 encoder \<open>C.enc.Base64\<close> is not in the source files.
  By its contract it maps the significant bytes of a buffer to text in the standard
  Base64 alphabet, three bytes to four characters with \<open>=\<close> padding, and back. The
  format functions below take the encoder as a parameter; this model is used where a
  concrete encoder is needed.
\<close>

definition b64chars :: string where
  "b64chars = ''ABCDEFGHIJKLMNOPQRSTUVWXYZabcdefghijklmnopqrstuvwxyz0123456789+/''"

definition b64_char :: "nat \<Rightarrow> char" where
  "b64_char n = b64chars ! (n mod 64)"

fun b64_index :: "string \<Rightarrow> char \<Rightarrow> nat" where
  "b64_index [] c = 0"
| "b64_index (x # xs) c = (if x = c then 0 else Suc (b64_index xs c))"

definition b64_value :: "char \<Rightarrow> nat" where
  "b64_value c = b64_index b64chars c mod 64"

fun b64_encode :: "8 word list \<Rightarrow> string" where
  "b64_encode [] = []"
| "b64_encode [a] =
     [b64_char (unat a div 4), b64_char (unat a mod 4 * 16), CHR ''='', CHR ''='']"
| "b64_encode [a, b] =
     [b64_char (unat a div 4), b64_char (unat a mod 4 * 16 + unat b div 16),
      b64_char (unat b mod 16 * 4), CHR ''='']"
| "b64_encode (a # b # c # rest) =
     [b64_char (unat a div 4), b64_char (unat a mod 4 * 16 + unat b div 16),
      b64_char (unat b mod 16 * 4 + unat c div 64), b64_char (unat c mod 64)]
     @ b64_encode rest"

fun b64_decode :: "string \<Rightarrow> 8 word list" where
  "b64_decode (c1 # c2 # c3 # c4 # rest) =
     (let b1 = of_nat (b64_value c1 * 4 + b64_value c2 div 16);
          b2 = of_nat (b64_value c2 mod 16 * 16 + b64_value c3 div 4);
          b3 = of_nat (b64_value c3 mod 4 * 64 + b64_value c4)
      in if c3 = CHR ''='' then [b1]
         else if c4 = CHR ''='' then [b1, b2]
         else [b1, b2, b3] @ b64_decode rest)"
| "b64_decode cs = []"

definition Base64_toString :: "wordarray \<Rightarrow> string" where
  "Base64_toString wordArray = b64_encode (wa_bytes wordArray)"

definition Base64_fromString :: "string \<Rightarrow> wordarray" where
  "Base64_fromString base64Str =
     \<lparr>words = pack (b64_decode base64Str), sigBytes = int (length (b64_decode base64Str))\<rparr>"

section \<open>cipher-core.js: the OpenSSL format\<close>

text \<open>
  The format and the key derivation strategies the source defines, and the bag of
  cipher parameters, each field present or absent.
\<close>

datatype format = OpenSSL
datatype kdf = KDF_OpenSSL

record cipherparams =
  p_rawCiphertext :: "wordarray option"
  p_key :: "wordarray option"
  p_iv :: "wordarray option"
  p_salt :: "wordarray option"
  p_formatter :: "format option"

definition CipherParams_create ::
  "wordarray option \<Rightarrow> wordarray option \<Rightarrow> wordarray option \<Rightarrow> wordarray option \<Rightarrow> cipherparams" where
  "CipherParams_create rawCiphertext key iv salt =
     \<lparr>p_rawCiphertext = rawCiphertext, p_key = key, p_iv = iv, p_salt = salt,
      p_formatter = None\<rparr>"

text \<open>
  \<open>OpenSSL.toString\<close>: the buffer that is encoded (\<open>Salted__\<close>, salt and ciphertext when
  there is a salt, the ciphertext itself otherwise), then its Base64 text. A missing
  ciphertext raises TypeError.
\<close>

definition OpenSSL_payload :: "cipherparams \<Rightarrow> error + wordarray" where
  "OpenSSL_payload params =
     (case p_salt params of
        Some salt \<Rightarrow>
          (case concat_wa (WordArray_create (Some [0x53616c74, 0x65645f5f]) None) salt of
             Inl e \<Rightarrow> Inl e
           | Inr magic_salt \<Rightarrow>
               (case p_rawCiphertext params of
                  None \<Rightarrow> Inl TypeError
                | Some rawCiphertext \<Rightarrow> concat_wa magic_salt rawCiphertext))
      | None \<Rightarrow>
          (case p_rawCiphertext params of
             None \<Rightarrow> Inl TypeError
           | Some rawCiphertext \<Rightarrow> Inr rawCiphertext))"

definition OpenSSL_toString :: "(wordarray \<Rightarrow> string) \<Rightarrow> cipherparams \<Rightarrow> error + string" where
  "OpenSSL_toString base64_toString params =
     (case OpenSSL_payload params of
        Inl e \<Rightarrow> Inl e
      | Inr openSSLStr \<Rightarrow> Inr (base64_toString openSSLStr))"

text \<open>
  \<open>OpenSSL.fromString\<close>: when the first two words are the magic constant, words 2 and 3
  are the salt, four words are removed and \<open>sigBytes\<close> is reduced by 16.
\<close>

definition OpenSSL_fromString :: "(string \<Rightarrow> wordarray) \<Rightarrow> string \<Rightarrow> cipherparams" where
  "OpenSSL_fromString base64_fromString openSSLStr =
     (let rawCiphertext = base64_fromString openSSLStr;
          rawCiphertextWords = words rawCiphertext
      in if js_get rawCiphertextWords 0 = 0x53616c74 \<and> js_get rawCiphertextWords 1 = 0x65645f5f
         then CipherParams_create
                (Some \<lparr>words = drop 4 rawCiphertextWords, sigBytes = sigBytes rawCiphertext - 16\<rparr>)
                None None
                (Some (WordArray_create (Some (take 2 (drop 2 rawCiphertextWords))) None))
         else CipherParams_create (Some rawCiphertext) None None None)"

text \<open>
  A buffer with the same significant bytes and nothing else in its words, as a decoder
  builds it; and the eight bytes \<open>Salted__\<close>.
\<close>

definition canonical :: "wordarray \<Rightarrow> wordarray" where
  "canonical wa = \<lparr>words = pack (wa_bytes wa), sigBytes = sigBytes wa\<rparr>"

definition magic_bytes :: "8 word list" where
  "magic_bytes = [0x53, 0x61, 0x6c, 0x74, 0x65, 0x64, 0x5f, 0x5f]"

lemma get_byte_append:
  "get_byte (xs @ ys) j
   = (if j div 4 < length xs then get_byte xs j else get_byte ys (j - 4 * length xs))"
proof (cases "j div 4 < length xs")
  case True
  then show ?thesis by (simp add: get_byte_def js_get_def nth_append)
next
  case False
  then have "4 * length xs \<le> j" by linarith
  then obtain k where k: "j = 4 * length xs + k" using le_Suc_ex by blast
  have "(4 * length xs + k) div 4 = length xs + k div 4" by simp
  moreover have "(4 * length xs + k) mod 4 = k mod 4" by simp
  ultimately show ?thesis using False unfolding k
    by (simp add: get_byte_def js_get_def nth_append)
qed

lemma byte_at_append:
  "byte_at (A @ B) j = (if j < length A then byte_at A j else byte_at B (j - length A))"
  by (auto simp add: byte_at_def nth_append)

lemma pack_append:
  assumes "4 dvd length A"
  shows "pack (A @ B) = pack A @ pack B"
proof -
  from assms obtain a where a: "length A = 4 * a" ..
  have la: "length (pack A) = a" by (simp add: a)
  show ?thesis
  proof (rule words_eqI)
    show "length (pack (A @ B)) = length (pack A @ pack B)" by (simp add: a)
  next
    fix j
    have "(j div 4 < a) = (j < 4 * a)" by linarith
    then show "get_byte (pack (A @ B)) j = get_byte (pack A @ pack B) j"
      unfolding get_byte_append la by (simp add: get_byte_pack byte_at_append a)
  qed
qed

lemma pack_magic: "pack magic_bytes = [0x53616c74, 0x65645f5f]"
  by code_simp

lemma magic_create: "wa_bytes (WordArray_create (Some [0x53616c74, 0x65645f5f]) None) = magic_bytes"
  by code_simp

lemma magic_prefix:
  assumes "js_get (pack R) 0 = 0x53616c74" "js_get (pack R) 1 = 0x65645f5f"
  shows "take 8 R = magic_bytes"
proof -
  have g: "byte_at R j = lane (js_get (pack R) (j div 4)) (j mod 4)" for j
    using get_byte_pack [of R j] by (simp add: get_byte_def)
  have b: "byte_at R 0 = 0x53" "byte_at R 1 = 0x61" "byte_at R 2 = 0x6c" "byte_at R 3 = 0x74"
    "byte_at R 4 = 0x65" "byte_at R 5 = 0x64" "byte_at R 6 = 0x5f" "byte_at R 7 = 0x5f"
    unfolding g using assms by (simp_all add: lane_def)
  from b(8) have len: "7 < length R" by (cases "7 < length R") (simp_all add: byte_at_def)
  show ?thesis
  proof (rule nth_equalityI)
    show "length (take 8 R) = length magic_bytes" using len by (simp add: magic_bytes_def)
  next
    fix i assume "i < length (take 8 R)"
    then have "i < 8" by simp
    then have "i = 0 \<or> i = 1 \<or> i = 2 \<or> i = 3 \<or> i = 4 \<or> i = 5 \<or> i = 6 \<or> i = 7"
      by linarith
    moreover from len have "R \<noteq> []" by auto
    ultimately show "take 8 R ! i = magic_bytes ! i"
      using b len by (elim disjE) (simp_all add: byte_at_def magic_bytes_def)
  qed
qed

lemma canonical_pack: "canonical \<lparr>words = pack X, sigBytes = int (length X)\<rparr>
                       = \<lparr>words = pack X, sigBytes = int (length X)\<rparr>"
  by (simp add: canonical_def)

lemma OpenSSL_payload_salted:
  assumes "p_salt params = Some s" "sigBytes s = 8"
    and "p_rawCiphertext params = Some r" "0 \<le> sigBytes r" "sigBytes r + 16 < 2 ^ 32"
  shows "OpenSSL_payload params
         = Inr \<lparr>words = [0x53616c74, 0x65645f5f] @ pack (wa_bytes s) @ pack (wa_bytes r),
                sigBytes = 16 + sigBytes r\<rparr>"
proof -
  let ?m = "WordArray_create (Some [0x53616c74, 0x65645f5f]) None"
  have sm: "sigBytes ?m = 8" by (simp add: WordArray_create_def)
  have c1: "concat_wa ?m s = Inr \<lparr>words = pack (magic_bytes @ wa_bytes s), sigBytes = 16\<rparr>"
    using concat_wa_pack [of ?m s] assms(2) sm by (simp add: magic_create)
  have b1: "wa_bytes \<lparr>words = pack (magic_bytes @ wa_bytes s), sigBytes = 16\<rparr>
            = magic_bytes @ wa_bytes s"
    using wa_bytes_pack [of "magic_bytes @ wa_bytes s"] assms(2)
    by (simp add: magic_bytes_def del: wa_bytes_pack)
  have c2: "concat_wa \<lparr>words = pack (magic_bytes @ wa_bytes s), sigBytes = 16\<rparr> r
        = Inr \<lparr>words = pack ((magic_bytes @ wa_bytes s) @ wa_bytes r),
               sigBytes = 16 + sigBytes r\<rparr>"
    using concat_wa_pack [of "\<lparr>words = pack (magic_bytes @ wa_bytes s), sigBytes = 16\<rparr>" r]
      assms(4,5) unfolding b1 by simp
  have lm: "length magic_bytes = 8" by (simp add: magic_bytes_def)
  have "pack ((magic_bytes @ wa_bytes s) @ wa_bytes r)
        = pack (magic_bytes @ wa_bytes s) @ pack (wa_bytes r)"
    by (rule pack_append) (simp add: lm assms(2))
  also have "pack (magic_bytes @ wa_bytes s) = pack magic_bytes @ pack (wa_bytes s)"
    by (rule pack_append) (simp add: lm)
  finally have "pack ((magic_bytes @ wa_bytes s) @ wa_bytes r)
        = pack magic_bytes @ pack (wa_bytes s) @ pack (wa_bytes r)" by simp
  then show ?thesis
    unfolding OpenSSL_payload_def using assms(1,3) c1 c2 by (simp add: pack_magic)
qed

lemma OpenSSL_fromString_salted:
  assumes "length S = 8" "0 \<le> sr" "int (length R) = sr"
    and "base64_fromString str
         = \<lparr>words = [0x53616c74, 0x65645f5f] @ pack S @ pack R, sigBytes = 16 + sr\<rparr>"
  shows "OpenSSL_fromString base64_fromString str
         = CipherParams_create (Some \<lparr>words = pack R, sigBytes = sr\<rparr>) None None
             (Some \<lparr>words = pack S, sigBytes = 8\<rparr>)"
  using assms(1)
  by (simp add: OpenSSL_fromString_def assms(4) Let_def js_get_def WordArray_create_def)

lemma OpenSSL_fromString_unsalted:
  assumes "take 8 R \<noteq> magic_bytes"
    and "base64_fromString str = \<lparr>words = pack R, sigBytes = sr\<rparr>"
  shows "OpenSSL_fromString base64_fromString str
         = CipherParams_create (Some \<lparr>words = pack R, sigBytes = sr\<rparr>) None None None"
proof -
  have c: "(js_get (pack R) 0 = 0x53616c74 \<and> js_get (pack R) 1 = 0x65645f5f) = False"
    using magic_prefix [of R] assms(1) by blast
  have w: "words \<lparr>words = pack R, sigBytes = sr\<rparr> = pack R" by simp
  show ?thesis
    unfolding OpenSSL_fromString_def assms(2) Let_def w c by (simp only: if_False)
qed

text \<open>
  Claim C3, amended. Let the Base64 decoder return, for the text of the encoded buffer,
  the buffer with the same significant bytes. For parameters with a ciphertext
  (\<open>0 \<le> sigBytes\<close>, below \<open>2 ^ 32 - 16\<close>) and a salt of 8 bytes, \<open>fromString (toString params)\<close>
  has a ciphertext with the same significant bytes and a salt with the same significant
  bytes; for parameters without a salt whose ciphertext does not start with the eight
  bytes \<open>Salted__\<close>, it has a ciphertext with the same significant bytes and no salt.
\<close>

theorem OpenSSL_format_roundtrip:
  assumes raw: "p_rawCiphertext params = Some r" "0 \<le> sigBytes r" "sigBytes r + 16 < 2 ^ 32"
    and salt: "case p_salt params of Some s \<Rightarrow> sigBytes s = 8
                 | None \<Rightarrow> take 8 (wa_bytes r) \<noteq> magic_bytes"
    and codec: "\<And>x. OpenSSL_payload params = Inr x
                  \<Longrightarrow> base64_fromString (base64_toString x) = canonical x"
  shows "\<exists>str raw'. OpenSSL_toString base64_toString params = Inr str
          \<and> p_rawCiphertext (OpenSSL_fromString base64_fromString str) = Some raw'
          \<and> sigBytes raw' = sigBytes r \<and> wa_bytes raw' = wa_bytes r
          \<and> (case p_salt params of
                Some s \<Rightarrow> (\<exists>s'. p_salt (OpenSSL_fromString base64_fromString str) = Some s'
                               \<and> sigBytes s' = sigBytes s \<and> wa_bytes s' = wa_bytes s)
              | None \<Rightarrow> p_salt (OpenSSL_fromString base64_fromString str) = None)"
proof (cases "p_salt params")
  case None
  let ?str = "base64_toString r"
  have p: "OpenSSL_payload params = Inr r" using None raw(1) by (simp add: OpenSSL_payload_def)
  have t: "OpenSSL_toString base64_toString params = Inr ?str"
    by (simp add: OpenSSL_toString_def p)
  have d: "base64_fromString ?str = \<lparr>words = pack (wa_bytes r), sigBytes = sigBytes r\<rparr>"
    using codec [OF p] by (simp add: canonical_def)
  have m: "take 8 (wa_bytes r) \<noteq> magic_bytes" using salt None by simp
  have f: "OpenSSL_fromString base64_fromString ?str
         = CipherParams_create (Some \<lparr>words = pack (wa_bytes r), sigBytes = sigBytes r\<rparr>)
             None None None"
    using m d by (rule OpenSSL_fromString_unsalted [of "wa_bytes r" base64_fromString "base64_toString r" "sigBytes r"])
  have "wa_bytes \<lparr>words = pack (wa_bytes r), sigBytes = sigBytes r\<rparr> = wa_bytes r"
    using wa_bytes_pack [of "wa_bytes r"] raw(2) by simp
  then show ?thesis
    using None
    by (intro exI [of _ ?str] exI [of _ "\<lparr>words = pack (wa_bytes r), sigBytes = sigBytes r\<rparr>"])
       (simp add: t f CipherParams_create_def)
next
  case (Some s)
  then have s8: "sigBytes s = 8" using salt by simp
  define P where "P = \<lparr>words = [0x53616c74, 0x65645f5f] @ pack (wa_bytes s) @ pack (wa_bytes r),
                sigBytes = 16 + sigBytes r\<rparr>"
  define X where "X = (magic_bytes @ wa_bytes s) @ wa_bytes r"
  let ?str = "base64_toString P"
  have p: "OpenSSL_payload params = Inr P"
    unfolding P_def by (rule OpenSSL_payload_salted [OF Some s8 raw])
  have t: "OpenSSL_toString base64_toString params = Inr ?str"
    by (simp add: OpenSSL_toString_def p)
  have lm: "length magic_bytes = 8" by (simp add: magic_bytes_def)
  have "pack X = pack (magic_bytes @ wa_bytes s) @ pack (wa_bytes r)"
    unfolding X_def by (rule pack_append) (simp add: lm s8)
  also have "pack (magic_bytes @ wa_bytes s) = pack magic_bytes @ pack (wa_bytes s)"
    by (rule pack_append) (simp add: lm)
  finally have wX: "words P = pack X" by (simp add: P_def pack_magic)
  have lX: "sigBytes P = int (length X)" using raw(2) s8 by (simp add: P_def X_def lm)
  have "P = \<lparr>words = pack X, sigBytes = int (length X)\<rparr>"
    using wX lX by (cases P) simp
  then have "canonical P = P" using canonical_pack [of X] by simp
  then have d: "base64_fromString ?str
         = \<lparr>words = [0x53616c74, 0x65645f5f] @ pack (wa_bytes s) @ pack (wa_bytes r),
             sigBytes = 16 + sigBytes r\<rparr>"
    using codec [OF p] by (simp add: P_def)
  have f: "OpenSSL_fromString base64_fromString ?str
         = CipherParams_create (Some \<lparr>words = pack (wa_bytes r), sigBytes = sigBytes r\<rparr>)
             None None (Some \<lparr>words = pack (wa_bytes s), sigBytes = 8\<rparr>)"
    using raw(2) s8
    by (intro OpenSSL_fromString_salted [of "wa_bytes s" "sigBytes r" "wa_bytes r"
          base64_fromString "base64_toString P"] d) simp_all
  have br: "wa_bytes \<lparr>words = pack (wa_bytes r), sigBytes = sigBytes r\<rparr> = wa_bytes r"
    using wa_bytes_pack [of "wa_bytes r"] raw(2) by simp
  have bs: "wa_bytes \<lparr>words = pack (wa_bytes s), sigBytes = 8\<rparr> = wa_bytes s"
    using wa_bytes_pack [of "wa_bytes s"] s8 by simp
  show ?thesis
    using Some s8 br bs
    by (intro exI [of _ ?str] exI [of _ "\<lparr>words = pack (wa_bytes r), sigBytes = sigBytes r\<rparr>"])
       (simp add: t f CipherParams_create_def)
qed

text \<open>
  The theorem of C3 at the ciphertext and the salt of the format's unit tests, with the
  Base64 model as the encoder.
\<close>

theorem OpenSSL_format_roundtrip_witness:
  "p_rawCiphertext (CipherParams_create
       (Some \<lparr>words = [0x00010203, 0x04050607, 0x08090a0b, 0x0c0d0e0f], sigBytes = 16\<rparr>)
       None None (Some \<lparr>words = [0x01234567, 0x89abcdef], sigBytes = 8\<rparr>))
     = Some \<lparr>words = [0x00010203, 0x04050607, 0x08090a0b, 0x0c0d0e0f], sigBytes = 16\<rparr>
   \<and> OpenSSL_toString Base64_toString (CipherParams_create
       (Some \<lparr>words = [0x00010203, 0x04050607, 0x08090a0b, 0x0c0d0e0f], sigBytes = 16\<rparr>)
       None None (Some \<lparr>words = [0x01234567, 0x89abcdef], sigBytes = 8\<rparr>))
     = Inr ''U2FsdGVkX18BI0VniavN7wABAgMEBQYHCAkKCwwNDg8=''
   \<and> OpenSSL_fromString Base64_fromString ''U2FsdGVkX18BI0VniavN7wABAgMEBQYHCAkKCwwNDg8=''
     = CipherParams_create
         (Some \<lparr>words = [0x00010203, 0x04050607, 0x08090a0b, 0x0c0d0e0f], sigBytes = 16\<rparr>)
         None None (Some \<lparr>words = [0x01234567, 0x89abcdef], sigBytes = 8\<rparr>)
   \<and> (\<exists>str raw'. OpenSSL_toString Base64_toString (CipherParams_create
       (Some \<lparr>words = [0x00010203, 0x04050607, 0x08090a0b, 0x0c0d0e0f], sigBytes = 16\<rparr>)
       None None (Some \<lparr>words = [0x01234567, 0x89abcdef], sigBytes = 8\<rparr>)) = Inr str
       \<and> p_rawCiphertext (OpenSSL_fromString Base64_fromString str) = Some raw'
       \<and> wa_bytes raw'
           = wa_bytes \<lparr>words = [0x00010203, 0x04050607, 0x08090a0b, 0x0c0d0e0f], sigBytes = 16\<rparr>)"
proof -
  let ?r = "\<lparr>words = [0x00010203, 0x04050607, 0x08090a0b, 0x0c0d0e0f], sigBytes = 16\<rparr>"
  let ?s = "\<lparr>words = [0x01234567, 0x89abcdef], sigBytes = 8\<rparr>"
  let ?P = "CipherParams_create (Some ?r) None None (Some ?s)"
  let ?pl = "\<lparr>words = [0x53616c74, 0x65645f5f, 0x01234567, 0x89abcdef,
                     0x00010203, 0x04050607, 0x08090a0b, 0x0c0d0e0f], sigBytes = 32\<rparr>"
  have h1: "p_rawCiphertext ?P = Some ?r" by (simp add: CipherParams_create_def)
  have h2: "0 \<le> sigBytes ?r" "sigBytes ?r + 16 < 2 ^ 32" by simp_all
  have h3: "case p_salt ?P of Some s \<Rightarrow> sigBytes s = 8
                 | None \<Rightarrow> take 8 (wa_bytes ?r) \<noteq> magic_bytes"
    by (simp add: CipherParams_create_def)
  have pl: "OpenSSL_payload ?P = Inr ?pl" by code_simp
  have rt: "Base64_fromString (Base64_toString ?pl) = canonical ?pl" by code_simp
  have h4: "\<And>x. OpenSSL_payload ?P = Inr x
                  \<Longrightarrow> Base64_fromString (Base64_toString x) = canonical x"
    unfolding pl using rt by simp
  have t: "OpenSSL_toString Base64_toString ?P
           = Inr ''U2FsdGVkX18BI0VniavN7wABAgMEBQYHCAkKCwwNDg8=''"
    by code_simp
  have f: "OpenSSL_fromString Base64_fromString ''U2FsdGVkX18BI0VniavN7wABAgMEBQYHCAkKCwwNDg8=''
           = ?P"
    by code_simp
  from OpenSSL_format_roundtrip [of ?P ?r Base64_fromString Base64_toString, OF h1 h2 h3 h4]
  have "\<exists>str raw'. OpenSSL_toString Base64_toString ?P = Inr str
       \<and> p_rawCiphertext (OpenSSL_fromString Base64_fromString str) = Some raw'
       \<and> wa_bytes raw' = wa_bytes ?r"
    by blast
  with h1 t f show ?thesis by simp
qed

text \<open>
  Claim C3 as stated fails on an unsalted ciphertext that starts with \<open>Salted__\<close>: the
  next eight bytes come back as a salt and the ciphertext comes back empty. It also
  fails on a salt that is not 8 bytes long: with a salt of 4 bytes, the salt that comes
  back holds the 4 bytes of the ciphertext as well.
\<close>

theorem OpenSSL_format_counterexample:
  "OpenSSL_toString Base64_toString (CipherParams_create
       (Some \<lparr>words = [0x53616c74, 0x65645f5f, 0x01020304, 0x05060708], sigBytes = 16\<rparr>)
       None None None)
     = Inr ''U2FsdGVkX18BAgMEBQYHCA==''
   \<and> OpenSSL_fromString Base64_fromString ''U2FsdGVkX18BAgMEBQYHCA==''
     = CipherParams_create (Some \<lparr>words = [], sigBytes = 0\<rparr>) None None
         (Some \<lparr>words = [0x01020304, 0x05060708], sigBytes = 8\<rparr>)
   \<and> OpenSSL_toString Base64_toString (CipherParams_create
       (Some \<lparr>words = [0xAABBCCDD], sigBytes = 4\<rparr>)
       None None (Some \<lparr>words = [0x01234567], sigBytes = 4\<rparr>))
     = Inr ''U2FsdGVkX18BI0VnqrvM3Q==''
   \<and> OpenSSL_fromString Base64_fromString ''U2FsdGVkX18BI0VnqrvM3Q==''
     = CipherParams_create (Some \<lparr>words = [], sigBytes = 0\<rparr>) None None
         (Some \<lparr>words = [0x01234567, 0xAABBCCDD], sigBytes = 8\<rparr>)"
  by code_simp

section \<open>core.js: random word arrays\<close>

text \<open>
  The source of randomness is explicit: \<open>random k\<close> is the value of the \<open>k\<close>-th coming
  \<open>Math.floor(Math.random() * 0x100000000)\<close>. A function that draws numbers returns the
  source that is left. \<open>WordArray.random(nBytes)\<close> pushes one word for every four bytes.
\<close>

type_synonym rng = "nat \<Rightarrow> word32"

function random_loop :: "int \<Rightarrow> int \<Rightarrow> rng \<Rightarrow> word32 list \<Rightarrow> word32 list \<times> rng" where
  "random_loop i nBytes random ws =
     (if i < nBytes
      then random_loop (i + 4) nBytes (\<lambda>k. random (Suc k)) (ws @ [random 0])
      else (ws, random))"
  by pat_completeness auto
termination
  by (relation "measure (\<lambda>(i, nBytes, random, ws). nat (nBytes - i))") auto

definition WordArray_random :: "rng \<Rightarrow> int \<Rightarrow> wordarray \<times> rng" where
  "WordArray_random random nBytes =
     (let r = random_loop 0 nBytes random []
      in (WordArray_create (Some (fst r)) (Some nBytes), snd r))"

section \<open>cipher-core.js: key derivation and password-based encryption\<close>

text \<open>
  \<open>C.algo.EvpKDF.compute(password, salt, {keySize: n})\<close> is not in the source files; it is
  a parameter, a function of the password, the salt and the number of words.
  \<open>kdf.OpenSSL.execute\<close> draws a random salt of 8 bytes when it is given none, derives
  \<open>keySize + ivSize\<close> words, takes the words after the key as the IV and shortens the
  key's \<open>sigBytes\<close>.
\<close>

type_synonym evpkdf = "input \<Rightarrow> wordarray \<Rightarrow> nat \<Rightarrow> wordarray"

definition kdf_OpenSSL_execute ::
  "evpkdf \<Rightarrow> rng \<Rightarrow> cipher \<Rightarrow> input \<Rightarrow> wordarray option \<Rightarrow> cipherparams \<times> rng" where
  "kdf_OpenSSL_execute EvpKDF_compute random cipher password salt =
     (let sr = (case salt of None \<Rightarrow> WordArray_random random 8 | Some s \<Rightarrow> (s, random));
          salt' = fst sr;
          cipherKeySize = cipher_keySize cipher;
          cipherIvSize = cipher_ivSize cipher;
          key = EvpKDF_compute password salt' (cipherKeySize + cipherIvSize);
          iv = WordArray_create (Some (drop cipherKeySize (words key))) None;
          key' = key\<lparr>sigBytes := int cipherKeySize * 4\<rparr>
      in (CipherParams_create None (Some key') (Some iv) (Some salt'), snd sr))"

text \<open>The configuration of \<open>PBE\<close> and its defaults.\<close>

record pbe_cfg =
  pbe_format :: "format option"
  pbe_kdf :: "kdf option"

definition PBE_cfg :: "pbe_cfg \<Rightarrow> pbe_cfg" where
  "PBE_cfg overrides =
     \<lparr>pbe_format = (case pbe_format overrides of None \<Rightarrow> Some OpenSSL | Some f \<Rightarrow> Some f),
      pbe_kdf = (case pbe_kdf overrides of None \<Rightarrow> Some KDF_OpenSSL | Some k \<Rightarrow> Some k)\<rparr>"

definition kdf_execute ::
  "kdf \<Rightarrow> evpkdf \<Rightarrow> rng \<Rightarrow> cipher \<Rightarrow> input \<Rightarrow> wordarray option \<Rightarrow> cipherparams \<times> rng" where
  "kdf_execute k = (case k of KDF_OpenSSL \<Rightarrow> kdf_OpenSSL_execute)"

definition format_fromString :: "format \<Rightarrow> (string \<Rightarrow> wordarray) \<Rightarrow> string \<Rightarrow> cipherparams" where
  "format_fromString f = (case f of OpenSSL \<Rightarrow> OpenSSL_fromString)"

text \<open>
  \<open>PBE.encrypt\<close> up to its last statement: the parameters object it has assembled. The
  last statement is \<open>return ciphertextParams\<close>, and no variable of this name is declared
  in the function, in the enclosing module or anywhere in the source files, so
  evaluating it raises ReferenceError.
\<close>

definition PBE_encrypt_params ::
  "evpkdf \<Rightarrow> rng \<Rightarrow> cipher \<Rightarrow> input \<Rightarrow> input \<Rightarrow> pbe_cfg \<Rightarrow> (cipherparams \<times> rng) result" where
  "PBE_encrypt_params EvpKDF_compute random cipher message password cfg =
     (let cfg' = PBE_cfg cfg
      in case pbe_kdf cfg' of
           None \<Rightarrow> Some (Inl TypeError)
         | Some k \<Rightarrow>
             (let pr = kdf_execute k EvpKDF_compute random cipher password None;
                  params = fst pr
              in case p_key params of
                   None \<Rightarrow> Some (Inl TypeError)
                 | Some key \<Rightarrow>
                     (case Cipher_encrypt cipher message key
                             \<lparr>cfg_iv = p_iv params, cfg_padding = None, cfg_mode = None\<rparr> of
                        None \<Rightarrow> None
                      | Some (Inl e) \<Rightarrow> Some (Inl e)
                      | Some (Inr rawCiphertext) \<Rightarrow>
                          Some (Inr (params\<lparr>p_rawCiphertext := Some rawCiphertext,
                                            p_formatter := pbe_format cfg'\<rparr>, snd pr)))))"

definition PBE_encrypt ::
  "evpkdf \<Rightarrow> rng \<Rightarrow> cipher \<Rightarrow> input \<Rightarrow> input \<Rightarrow> pbe_cfg \<Rightarrow> (cipherparams \<times> rng) result" where
  "PBE_encrypt EvpKDF_compute random cipher message password cfg =
     (case PBE_encrypt_params EvpKDF_compute random cipher message password cfg of
        None \<Rightarrow> None
      | Some (Inl e) \<Rightarrow> Some (Inl e)
      | Some (Inr params) \<Rightarrow> Some (Inl (ReferenceError ''ciphertextParams'')))"

text \<open>
  \<open>PBE.decrypt\<close>: a string is parsed by the format; the key and IV are derived with the
  salt of the ciphertext, which is absent on an unsalted ciphertext.
\<close>

datatype pbe_input = PStr string | PParams cipherparams

definition PBE_decrypt ::
  "(string \<Rightarrow> wordarray) \<Rightarrow> evpkdf \<Rightarrow> rng \<Rightarrow> cipher \<Rightarrow> pbe_input \<Rightarrow> input \<Rightarrow> pbe_cfg
     \<Rightarrow> (wordarray \<times> rng) result" where
  "PBE_decrypt base64_fromString EvpKDF_compute random cipher ciphertext password cfg =
     (let cfg' = PBE_cfg cfg
      in case (case ciphertext of
                 PParams p \<Rightarrow> Inr p
               | PStr s \<Rightarrow> (case pbe_format cfg' of
                              None \<Rightarrow> Inl TypeError
                            | Some f \<Rightarrow> Inr (format_fromString f base64_fromString s))) of
           Inl e \<Rightarrow> Some (Inl e)
         | Inr ciphertext' \<Rightarrow>
             (case pbe_kdf cfg' of
                None \<Rightarrow> Some (Inl TypeError)
              | Some k \<Rightarrow>
                  (let pr = kdf_execute k EvpKDF_compute random cipher password
                              (p_salt ciphertext');
                       params = fst pr
                   in case p_rawCiphertext ciphertext' of
                        None \<Rightarrow> Some (Inl TypeError)
                      | Some rawCiphertext \<Rightarrow>
                          (case p_key params of
                             None \<Rightarrow> Some (Inl TypeError)
                           | Some key \<Rightarrow>
                               (case Cipher_decrypt cipher (WA rawCiphertext) key
                                       \<lparr>cfg_iv = p_iv params, cfg_padding = None,
                                        cfg_mode = None\<rparr> of
                                  None \<Rightarrow> None
                                | Some (Inl e) \<Rightarrow> Some (Inl e)
                                | Some (Inr plaintext) \<Rightarrow> Some (Inr (plaintext, snd pr)))))))"

text \<open>A key derivation for the examples: the words of the salt, repeated, plus a counter.\<close>

definition toy_kdf :: evpkdf where
  "toy_kdf password salt n =
     \<lparr>words = map (\<lambda>i. js_get (words salt) (i mod 2) + of_nat i) [0 ..< n],
      sigBytes = int n * 4\<rparr>"

lemma random_loop_8:
  "random_loop 0 8 random [] = ([random 0, random 1], \<lambda>k. random (Suc (Suc k)))"
  by (simp add: random_loop.simps)

lemma kdf_OpenSSL_execute_unsalted:
  "p_salt (fst (kdf_OpenSSL_execute EvpKDF_compute random cipher password None))
     = Some \<lparr>words = [random 0, random 1], sigBytes = 8\<rparr>
   \<and> p_key (fst (kdf_OpenSSL_execute EvpKDF_compute random cipher password None))
     = Some ((EvpKDF_compute password \<lparr>words = [random 0, random 1], sigBytes = 8\<rparr>
               (cipher_keySize cipher + cipher_ivSize cipher))
             \<lparr>sigBytes := int (cipher_keySize cipher) * 4\<rparr>)"
  by (simp add: kdf_OpenSSL_execute_def WordArray_random_def random_loop_8 Let_def
      CipherParams_create_def WordArray_create_def)

text \<open>
  Claim C2 does not hold of the code. Whatever the cipher, the message, the password and
  the configuration, \<open>PBE.encrypt\<close> never returns a value: when key derivation and
  encryption succeed it raises ReferenceError at \<open>return ciphertextParams\<close>, as on the
  message \<open>abcde\<close> with the cipher of 2 words.
\<close>

theorem PBE_encrypt_ReferenceError:
  "PBE_encrypt EvpKDF_compute random cipher message password cfg \<noteq> Some (Inr r)
   \<and> map_option (map_sum id fst)
        (PBE_encrypt toy_kdf (\<lambda>k. 1) (Block toy_cipher) (Str ''abcde'') (Str ''pw'')
           \<lparr>pbe_format = None, pbe_kdf = None\<rparr>)
       = Some (Inl (ReferenceError ''ciphertextParams''))"
proof
  show "PBE_encrypt EvpKDF_compute random cipher message password cfg \<noteq> Some (Inr r)"
    by (simp add: PBE_encrypt_def split: option.split sum.split)
  show "map_option (map_sum id fst)
        (PBE_encrypt toy_kdf (\<lambda>k. 1) (Block toy_cipher) (Str ''abcde'') (Str ''pw'')
           \<lparr>pbe_format = None, pbe_kdf = None\<rparr>)
       = Some (Inl (ReferenceError ''ciphertextParams''))"
    by code_simp
qed

text \<open>
  Claim C4 does not hold of the code. Given no salt, \<open>kdf.OpenSSL.execute\<close> takes the next
  two random words as the salt, so \<open>PBE.decrypt\<close> of an unsalted ciphertext depends on the
  random source: the same cipher, ciphertext and password give two different plaintexts
  under two sources.
\<close>

theorem PBE_decrypt_unsalted_random:
  "p_salt (fst (kdf_OpenSSL_execute EvpKDF_compute random cipher password None))
     = Some \<lparr>words = [random 0, random 1], sigBytes = 8\<rparr>
   \<and> map_option (map_sum id fst)
        (PBE_decrypt Base64_fromString toy_kdf (\<lambda>k. 0) (Block toy_cipher)
           (PParams (CipherParams_create
              (Some \<lparr>words = [0x65030308, 0x6162636C], sigBytes = 8\<rparr>) None None None))
           (Str ''pw'') \<lparr>pbe_format = None, pbe_kdf = None\<rparr>)
       = Some (Inr \<lparr>words = [0x6162636D, 0x6503030A], sigBytes = - 2\<rparr>)
   \<and> map_option (map_sum id fst)
        (PBE_decrypt Base64_fromString toy_kdf (\<lambda>k. 1) (Block toy_cipher)
           (PParams (CipherParams_create
              (Some \<lparr>words = [0x65030308, 0x6162636C], sigBytes = 8\<rparr>) None None None))
           (Str ''pw'') \<lparr>pbe_format = None, pbe_kdf = None\<rparr>)
       = Some (Inr \<lparr>words = [0x61626369, 0x65030304], sigBytes = 4\<rparr>)"
proof (intro conjI)
  show "p_salt (fst (kdf_OpenSSL_execute EvpKDF_compute random cipher password None))
     = Some \<lparr>words = [random 0, random 1], sigBytes = 8\<rparr>"
    using kdf_OpenSSL_execute_unsalted by blast
  show "map_option (map_sum id fst)
        (PBE_decrypt Base64_fromString toy_kdf (\<lambda>k. 0) (Block toy_cipher)
           (PParams (CipherParams_create
              (Some \<lparr>words = [0x65030308, 0x6162636C], sigBytes = 8\<rparr>) None None None))
           (Str ''pw'') \<lparr>pbe_format = None, pbe_kdf = None\<rparr>)
       = Some (Inr \<lparr>words = [0x6162636D, 0x6503030A], sigBytes = - 2\<rparr>)"
    by code_simp
  show "map_option (map_sum id fst)
        (PBE_decrypt Base64_fromString toy_kdf (\<lambda>k. 1) (Block toy_cipher)
           (PParams (CipherParams_create
              (Some \<lparr>words = [0x65030308, 0x6162636C], sigBytes = 8\<rparr>) None None None))
           (Str ''pw'') \<lparr>pbe_format = None, pbe_kdf = None\<rparr>)
       = Some (Inr \<lparr>words = [0x61626369, 0x65030304], sigBytes = 4\<rparr>)"
    by code_simp
qed

section \<open>core.js: the hash template\<close>

text \<open>
  An instance of a hash: \<open>_hash\<close>, the pending \<open>_message\<close> and \<open>_length\<close>, the number
  of bytes passed to \<open>update\<close> so far.
\<close>

record hasher =
  hash :: wordarray
  message :: wordarray
  length_total :: int

text \<open>
  Modelled from the spec: a concrete hash supplies \<open>blockSize\<close>, \<open>_doReset\<close>,
  \<open>_doHashBlock\<close> and \<open>_doCompute\<close> (none is in the source files). \<open>_doReset\<close> fills
  \<open>_hash.words\<close> with the initial values, \<open>_doHashBlock(offset)\<close> reads the block of
  \<open>blockSize\<close> words of \<open>_message\<close> at \<open>offset\<close> and updates \<open>_hash.words\<close> from it
  (the primitive's processBlock), and \<open>_doCompute\<close> finishes the instance.
\<close>

record hash_algo =
  h_blockSize :: nat
  h_initial :: "word32 list"
  h_processBlock :: "word32 list \<Rightarrow> word32 list \<Rightarrow> word32 list"
  h_doCompute :: "hasher \<Rightarrow> hasher"

text \<open>
  \<open>reset\<close>: fresh \<open>_hash\<close> and \<open>_message\<close>, \<open>_length = 0\<close>, then \<open>_doReset\<close>, then
  \<open>hash.sigBytes = hash.words.length * 4\<close>. An instance is what \<open>reset\<close> returns here.
\<close>

definition Hash_reset :: "hash_algo \<Rightarrow> hasher" where
  "Hash_reset algo =
     \<lparr>hash = \<lparr>words = h_initial algo, sigBytes = int (length (h_initial algo)) * 4\<rparr>,
      message = WordArray_create None None,
      length_total = 0\<rparr>"

text \<open>\<open>_doHashBlock(offset)\<close>, by the primitive's processBlock.\<close>

definition doHashBlock :: "hash_algo \<Rightarrow> hasher \<Rightarrow> nat \<Rightarrow> hasher" where
  "doHashBlock algo this offset =
     this\<lparr>hash := (hash this)\<lparr>words :=
        h_processBlock algo (words (hash this))
          (read_block (words (message this)) offset (h_blockSize algo))\<rparr>\<rparr>"

text \<open>
  \<open>_hashBlocks\<close>. \<open>Math.floor(sigBytes / (blockSize * 4))\<close> is the floor division for a
  block size other than 0. With a block size of 0 the quotient is NaN on an empty
  message, and nothing happens; it is infinite otherwise, and \<open>sigBytes\<close> becomes NaN.
  The loop runs \<open>offset\<close> over the multiples of \<open>blockSize\<close> below \<open>nWordsReady\<close>;
  \<open>splice(0, nWordsReady)\<close> removes the words from the front.
\<close>

definition hashBlocks :: "hash_algo \<Rightarrow> hasher \<Rightarrow> error + hasher" where
  "hashBlocks algo this =
     (let sigBytes' = sigBytes (message this);
          blockSize' = h_blockSize algo
      in if blockSize' = 0
         then (if sigBytes' = 0 then Inr this else Inl NotAnInteger)
         else
           (let nBlocksReady = sigBytes' div (int blockSize' * 4)
            in if nBlocksReady \<noteq> 0
               then
                 (let nWordsReady = nBlocksReady * int blockSize';
                      this1 = foldl (\<lambda>h k. doHashBlock algo h (k * blockSize')) this
                                [0 ..< nat nBlocksReady]
                  in Inr (this1\<lparr>message :=
                            \<lparr>words = drop (nat nWordsReady) (words (message this1)),
                             sigBytes = sigBytes' - nWordsReady * 4\<rparr>\<rparr>))
               else Inr this))"

text \<open>\<open>update\<close>: decode a string as UTF-8, append, count, hash the complete blocks.\<close>

definition Hash_update :: "hash_algo \<Rightarrow> hasher \<Rightarrow> input \<Rightarrow> error + hasher" where
  "Hash_update algo this messageUpdate =
     (let messageUpdate' = (case messageUpdate of Str s \<Rightarrow> Utf8_fromString s | WA w \<Rightarrow> w)
      in case concat_wa (message this) messageUpdate' of
           Inl e \<Rightarrow> Inl e
         | Inr m \<Rightarrow>
             hashBlocks algo
               (this\<lparr>message := m,
                      length_total := length_total this + sigBytes messageUpdate'\<rparr>))"

text \<open>
  \<open>if (messageUpdate)\<close>: an absent argument and the empty string are false, an object
  is true.
\<close>

definition truthy :: "input option \<Rightarrow> bool" where
  "truthy x = (case x of None \<Rightarrow> False | Some (Str s) \<Rightarrow> s \<noteq> [] | Some (WA w) \<Rightarrow> True)"

text \<open>
  \<open>compute\<close> on an instance: the optional last update, \<open>_doCompute\<close>, then the hash is
  kept and the instance is reset. The result is the hash and the instance after the call.
\<close>

definition Hash_compute ::
  "hash_algo \<Rightarrow> hasher \<Rightarrow> input option \<Rightarrow> error + (wordarray \<times> hasher)" where
  "Hash_compute algo this messageUpdate =
     (case (case messageUpdate of
              None \<Rightarrow> Inr this
            | Some m \<Rightarrow> if truthy messageUpdate then Hash_update algo this m else Inr this) of
        Inl e \<Rightarrow> Inl e
      | Inr this1 \<Rightarrow> Inr (hash (h_doCompute algo this1), Hash_reset algo))"

subsection \<open>What update does to the byte sequence\<close>

text \<open>
  For a message of bytes \<open>Y\<close> and a block of \<open>n\<close> words: the complete blocks of \<open>Y\<close>, in
  order, and the bytes of \<open>Y\<close> after them.
\<close>

definition chunks :: "nat \<Rightarrow> word32 list \<Rightarrow> nat \<Rightarrow> word32 list list" where
  "chunks n ws q = map (\<lambda>k. get_blk ws (k * n) n) [0 ..< q]"

definition complete_blocks :: "nat \<Rightarrow> 8 word list \<Rightarrow> word32 list list" where
  "complete_blocks n Y = chunks n (pack Y) (length Y div (4 * n))"

definition pending :: "nat \<Rightarrow> 8 word list \<Rightarrow> 8 word list" where
  "pending n Y = drop (4 * n * (length Y div (4 * n))) Y"

lemma pack_drop:
  assumes "4 * k \<le> length Y"
  shows "drop k (pack Y) = pack (drop (4 * k) Y)"
proof -
  have l: "length (take (4 * k) Y) = 4 * k" using assms by simp
  have "pack Y = pack (take (4 * k) Y @ drop (4 * k) Y)" by simp
  also have "\<dots> = pack (take (4 * k) Y) @ pack (drop (4 * k) Y)"
    by (rule pack_append) (simp only: l dvd_triv_left)
  finally have "drop k (pack Y) = drop k (pack (take (4 * k) Y) @ pack (drop (4 * k) Y))"
    by simp
  moreover have "length (pack (take (4 * k) Y)) = k" unfolding length_pack l by simp
  ultimately show ?thesis by simp
qed

lemma doHashBlock_fold:
  "foldl (\<lambda>h k. doHashBlock algo h (k * n)) this [0 ..< q]
   = this\<lparr>hash := (hash this)\<lparr>words :=
        foldl (h_processBlock algo) (words (hash this))
          (map (\<lambda>k. read_block (words (message this)) (k * n) (h_blockSize algo)) [0 ..< q])\<rparr>\<rparr>"
proof (induction q)
  case 0
  show ?case by simp
next
  case (Suc q)
  show ?case
    unfolding upt_Suc_append [OF le0] foldl_append Suc.IH map_append
    by (simp add: doHashBlock_def)
qed

lemma chunks_read:
  assumes "q * n \<le> length ws"
  shows "map (\<lambda>k. read_block ws (k * n) n) [0 ..< q] = chunks n ws q"
  unfolding chunks_def
proof (rule map_cong [OF refl])
  fix k assume "k \<in> set [0 ..< q]"
  then have "Suc k \<le> q" by simp
  then have "Suc k * n \<le> q * n" by (rule mult_le_mono1)
  then have "k * n + n \<le> length ws" using assms by simp
  then show "read_block ws (k * n) n = get_blk ws (k * n) n" by (rule read_block_get)
qed

lemma hashBlocks_spec:
  assumes n: "0 < h_blockSize algo"
    and msg: "message this = \<lparr>words = pack Y, sigBytes = int (length Y)\<rparr>"
  shows "hashBlocks algo this
         = Inr (this\<lparr>hash := (hash this)\<lparr>words :=
                   foldl (h_processBlock algo) (words (hash this))
                     (complete_blocks (h_blockSize algo) Y)\<rparr>,
                message := \<lparr>words = pack (pending (h_blockSize algo) Y),
                           sigBytes = int (length (pending (h_blockSize algo) Y))\<rparr>\<rparr>)"
proof -
  define bs where "bs = h_blockSize algo"
  define q where "q = length Y div (4 * bs)"
  have sm: "sigBytes (message this) = int (length Y)" and wm: "words (message this) = pack Y"
    by (simp_all add: msg)
  have nb: "int (length Y) div (int bs * 4) = int q"
    by (simp add: q_def zdiv_int ac_simps)
  have qn: "4 * (q * bs) \<le> length Y" unfolding q_def
    using div_times_less_eq_dividend [of "length Y" "4 * bs"] by (simp add: ac_simps)
  then have qn': "q * bs \<le> length (pack Y)" by simp
  have pend: "pending bs Y = drop (4 * (q * bs)) Y" by (simp add: pending_def q_def ac_simps)
  have lp: "int (length Y) - int q * int bs * 4 = int (length (pending bs Y))"
    unfolding pend using qn by (simp add: of_nat_diff)
  have dp: "drop (q * bs) (pack Y) = pack (pending bs Y)"
    unfolding pend by (rule pack_drop [OF qn])
  have cb: "complete_blocks bs Y = chunks bs (pack Y) q" by (simp add: complete_blocks_def q_def)
  have nq: "nat (int q) = q" "nat (int q * int bs) = q * bs" by (simp_all add: nat_mult_distrib)
  have bz: "(bs = 0) = False" using n by (simp add: bs_def)
  define this1 where "this1 = foldl (\<lambda>h k. doHashBlock algo h (k * bs)) this [0 ..< q]"
  have f: "this1 = this\<lparr>hash := (hash this)\<lparr>words :=
              foldl (h_processBlock algo) (words (hash this)) (complete_blocks bs Y)\<rparr>\<rparr>"
    unfolding this1_def doHashBlock_fold bs_def [symmetric] wm cb
    using chunks_read [OF qn'] by simp
  have hb: "hashBlocks algo this
        = (if int q \<noteq> 0
           then Inr (this1\<lparr>message := \<lparr>words = drop (q * bs) (words (message this1)),
                                        sigBytes = int (length Y) - int q * int bs * 4\<rparr>\<rparr>)
           else Inr this)"
    unfolding hashBlocks_def Let_def bs_def [symmetric] sm nb nq bz this1_def [symmetric]
    by (simp only: if_False)
  have wm1: "words (message this1) = pack Y" unfolding f using wm by simp
  show ?thesis
  proof (cases "q = 0")
    case True
    then have "pending bs Y = Y" "complete_blocks bs Y = []" by (simp_all add: pend cb chunks_def)
    then show ?thesis
      unfolding hb bs_def [symmetric] using True by (simp add: msg [symmetric])
  next
    case False
    then show ?thesis
      unfolding hb bs_def [symmetric] wm1 dp lp by (simp add: f)
  qed
qed

lemma Hash_update_spec:
  assumes n: "0 < h_blockSize algo"
    and m: "0 \<le> sigBytes (message this)" "0 \<le> sigBytes x"
      "sigBytes (message this) + sigBytes x < 2 ^ 32"
  shows "Hash_update algo this (WA x)
         = Inr \<lparr>hash = (hash this)\<lparr>words :=
                   foldl (h_processBlock algo) (words (hash this))
                     (complete_blocks (h_blockSize algo)
                        (wa_bytes (message this) @ wa_bytes x))\<rparr>,
                message = \<lparr>words = pack (pending (h_blockSize algo)
                                     (wa_bytes (message this) @ wa_bytes x)),
                           sigBytes = int (length (pending (h_blockSize algo)
                                     (wa_bytes (message this) @ wa_bytes x)))\<rparr>,
                length_total = length_total this + sigBytes x\<rparr>"
proof -
  define Y where "Y = wa_bytes (message this) @ wa_bytes x"
  define this1 where "this1 = this\<lparr>message := \<lparr>words = pack Y, sigBytes = int (length Y)\<rparr>,
                      length_total := length_total this + sigBytes x\<rparr>"
  have lY: "sigBytes (message this) + sigBytes x = int (length Y)" using m by (simp add: Y_def)
  have c: "concat_wa (message this) x = Inr \<lparr>words = pack Y, sigBytes = int (length Y)\<rparr>"
    using concat_wa_pack [OF m] unfolding lY Y_def .
  have u: "Hash_update algo this (WA x) = hashBlocks algo this1"
    by (simp add: Hash_update_def c this1_def)
  have msg: "message this1 = \<lparr>words = pack Y, sigBytes = int (length Y)\<rparr>"
    by (simp add: this1_def)
  show ?thesis
    unfolding u hashBlocks_spec [OF n msg] Y_def [symmetric]
    by (simp add: this1_def)
qed

lemma chunks_append_left:
  assumes "q * n \<le> length A"
  shows "chunks n (A @ B) q = chunks n A q"
  unfolding chunks_def
proof (rule map_cong [OF refl])
  fix k assume "k \<in> set [0 ..< q]"
  then have "Suc k \<le> q" by simp
  then have "Suc k * n \<le> q * n" by (rule mult_le_mono1)
  then have "k * n + n \<le> length A" using assms by simp
  then show "get_blk (A @ B) (k * n) n = get_blk A (k * n) n"
    by (simp add: get_blk_def)
qed

lemma chunks_Suc: "chunks n ws (Suc q) = chunks n ws q @ [get_blk ws (q * n) n]"
  by (simp add: chunks_def)

lemma chunks_append_right:
  assumes "length A = q * n"
  shows "chunks n (A @ B) (q + z) = chunks n A q @ chunks n B z"
proof (induction z)
  case 0
  have "chunks n (A @ B) q = chunks n A q"
    using assms by (intro chunks_append_left) simp
  then show ?case by (simp add: chunks_def)
next
  case (Suc z)
  have "get_blk (A @ B) ((q + z) * n) n = get_blk B (z * n) n"
    using assms by (simp add: get_blk_def add_mult_distrib)
  then show ?case
    unfolding add_Suc_right chunks_Suc Suc.IH by simp
qed

lemma blocks_split:
  assumes "0 < n"
  shows "complete_blocks n (U @ B) = complete_blocks n U @ complete_blocks n (pending n U @ B)"
    and "pending n (U @ B) = pending n (pending n U @ B)"
proof -
  define q where "q = length U div (4 * n)"
  define T where "T = take (4 * n * q) U"
  define Z where "Z = pending n U @ B"
  define z where "z = length Z div (4 * n)"
  have le: "4 * n * q \<le> length U" unfolding q_def by simp
  then have lT: "length T = 4 * (q * n)" by (simp add: T_def ac_simps)
  have U: "U = T @ pending n U" by (simp add: T_def pending_def q_def)
  have UB: "U @ B = T @ Z" unfolding Z_def using U by simp
  have d: "length (T @ Z) div (4 * n) = q + z"
  proof -
    have "length (T @ Z) = length Z + 4 * n * q" by (simp add: lT ac_simps)
    moreover have "(length Z + 4 * n * q) div (4 * n) = q + length Z div (4 * n)"
      using assms by (intro div_mult_self2) simp
    ultimately show ?thesis by (simp only: z_def)
  qed
  have pT: "length (pack T) = q * n" unfolding length_pack lT by simp
  have pk: "pack (T @ Z) = pack T @ pack Z" by (rule pack_append) (simp only: lT dvd_triv_left)
  have pU: "pack U = pack T @ pack (pending n U)"
    using pack_append [of T "pending n U"] U lT by simp
  have "complete_blocks n (T @ Z) = chunks n (pack T) q @ chunks n (pack Z) z"
    unfolding complete_blocks_def d pk by (rule chunks_append_right [OF pT])
  moreover have "complete_blocks n U = chunks n (pack T) q"
    unfolding complete_blocks_def q_def [symmetric] pU
    using pT by (intro chunks_append_left) simp
  ultimately show "complete_blocks n (U @ B)
        = complete_blocks n U @ complete_blocks n (pending n U @ B)"
    unfolding UB by (simp add: complete_blocks_def z_def Z_def)
  have "pending n (T @ Z) = drop (4 * n * (q + z)) (T @ Z)"
    unfolding pending_def d ..
  also have "\<dots> = drop (4 * n * z) Z" using lT by (simp add: algebra_simps)
  also have "\<dots> = pending n Z" by (simp add: pending_def z_def)
  finally show "pending n (U @ B) = pending n (pending n U @ B)"
    unfolding UB by (simp add: Z_def)
qed

lemma length_pending: "length (pending n Y) = length Y mod (4 * n)"
  by (simp add: pending_def modulo_nat_def ac_simps)

text \<open>
  Claim C9. For a hash with a block of at least one word, an instance whose pending
  message has \<open>sigBytes \<ge> 0\<close>, and buffers \<open>a\<close>, \<open>b\<close> (total size below \<open>2^32\<close> bytes):
  \<open>update(a)\<close> then \<open>update(b)\<close> returns, and leaves the instance in the very state
  that one \<open>update\<close> of a buffer holding the bytes of \<open>a\<close> followed by those of \<open>b\<close>
  leaves it in (hash, pending message and length, hence the same later digest). In that
  state processBlock has been applied to the complete blocks of all the bytes received,
  in order, and the pending message is the rest, shorter than a block.
\<close>

theorem Hash_update_split:
  assumes n: "0 < h_blockSize algo"
    and m: "0 \<le> sigBytes (message this)" "0 \<le> sigBytes a" "0 \<le> sigBytes b"
    and lt: "sigBytes (message this) + sigBytes a + sigBytes b < 2 ^ 32"
    and ab: "sigBytes ab = sigBytes a + sigBytes b" "wa_bytes ab = wa_bytes a @ wa_bytes b"
  shows "\<exists>this1 this2.
           Hash_update algo this (WA a) = Inr this1
         \<and> Hash_update algo this1 (WA b) = Inr this2
         \<and> Hash_update algo this (WA ab) = Inr this2
         \<and> words (hash this2)
             = foldl (h_processBlock algo) (words (hash this))
                 (complete_blocks (h_blockSize algo)
                    (wa_bytes (message this) @ wa_bytes a @ wa_bytes b))
         \<and> wa_bytes (message this2)
             = pending (h_blockSize algo) (wa_bytes (message this) @ wa_bytes a @ wa_bytes b)
         \<and> sigBytes (message this2) < 4 * int (h_blockSize algo)"
proof -
  define bs where "bs = h_blockSize algo"
  define M where "M = wa_bytes (message this)"
  define A where "A = wa_bytes a"
  define B where "B = wa_bytes b"
  define this1 where "this1 =
     \<lparr>hash = (hash this)\<lparr>words :=
               foldl (h_processBlock algo) (words (hash this)) (complete_blocks bs (M @ A))\<rparr>,
      message = \<lparr>words = pack (pending bs (M @ A)),
                 sigBytes = int (length (pending bs (M @ A)))\<rparr>,
      length_total = length_total this + sigBytes a\<rparr>"
  define this2 where "this2 =
     \<lparr>hash = (hash this)\<lparr>words :=
               foldl (h_processBlock algo) (words (hash this)) (complete_blocks bs (M @ A @ B))\<rparr>,
      message = \<lparr>words = pack (pending bs (M @ A @ B)),
                 sigBytes = int (length (pending bs (M @ A @ B)))\<rparr>,
      length_total = length_total this + sigBytes a + sigBytes b\<rparr>"
  have u1: "Hash_update algo this (WA a) = Inr this1"
    unfolding this1_def bs_def M_def A_def
    using m lt by (intro Hash_update_spec [OF n]) simp_all
  have m1: "wa_bytes (message this1) = pending bs (M @ A)"
    "sigBytes (message this1) = int (length (pending bs (M @ A)))"
    by (simp_all add: this1_def)
  have "length (pending bs (M @ A)) \<le> length (M @ A)" by (simp add: pending_def)
  also have "int (length (M @ A)) = sigBytes (message this) + sigBytes a"
    using m by (simp add: M_def A_def)
  finally have b1: "0 \<le> sigBytes (message this1)"
    "sigBytes (message this1) + sigBytes b < 2 ^ 32"
    using lt by (simp_all add: m1)
  have s: "complete_blocks bs (M @ A @ B)
          = complete_blocks bs (M @ A) @ complete_blocks bs (pending bs (M @ A) @ B)"
    "pending bs (M @ A @ B) = pending bs (pending bs (M @ A) @ B)"
    using blocks_split [of bs "M @ A" B] n by (simp_all add: bs_def)
  have u2: "Hash_update algo this1 (WA b) = Inr this2"
    unfolding Hash_update_spec [OF n b1(1) m(3) b1(2)] m1 bs_def [symmetric] B_def [symmetric]
    by (simp add: this2_def this1_def s)
  have u3: "Hash_update algo this (WA ab) = Inr this2"
    unfolding this2_def bs_def M_def A_def B_def
    using Hash_update_spec [OF n m(1), of ab] m lt ab by (simp add: ac_simps)
  have "length (pending bs (M @ A @ B)) < 4 * bs"
    unfolding length_pending using n by (simp add: bs_def)
  then have p: "sigBytes (message this2) < 4 * int bs" by (simp add: this2_def)
  show ?thesis
    using u1 u2 u3 p unfolding bs_def [symmetric] M_def [symmetric] A_def [symmetric]
      B_def [symmetric]
    by (intro exI [of _ this1] exI [of _ this2]) (simp add: this2_def)
qed

text \<open>
  A hash of 2-word blocks for the examples: it mixes a block into two words of state,
  and finishes with the first pending word and the length.
\<close>

definition toy_hash :: hash_algo where
  "toy_hash =
     \<lparr>h_blockSize = 2,
      h_initial = [0x67452301, 0xefcdab89],
      h_processBlock = (\<lambda>H M. [js_get H 1 + js_get M 0, (js_get H 0 XOR js_get M 1) * 33]),
      h_doCompute = (\<lambda>this. this\<lparr>hash := (hash this)\<lparr>words :=
         [js_get (words (hash this)) 1 + js_get (words (message this)) 0,
          (js_get (words (hash this)) 0 XOR word_of_int (length_total this)) * 33]\<rparr>\<rparr>)\<rparr>"

text \<open>The theorem at 5 bytes then 7 bytes, against 12 bytes at once.\<close>

theorem Hash_update_split_witness:
  "0 < h_blockSize toy_hash
   \<and> 0 \<le> sigBytes (message (Hash_reset toy_hash))
   \<and> 0 \<le> sigBytes \<lparr>words = [0x01020304, 0x05000000], sigBytes = 5\<rparr>
   \<and> 0 \<le> sigBytes \<lparr>words = [0x06070809, 0x0a0b0c00], sigBytes = 7\<rparr>
   \<and> sigBytes (message (Hash_reset toy_hash))
       + sigBytes \<lparr>words = [0x01020304, 0x05000000], sigBytes = 5\<rparr>
       + sigBytes \<lparr>words = [0x06070809, 0x0a0b0c00], sigBytes = 7\<rparr> < 2 ^ 32
   \<and> wa_bytes \<lparr>words = [0x01020304, 0x05060708, 0x090a0b0c], sigBytes = 12\<rparr>
       = wa_bytes \<lparr>words = [0x01020304, 0x05000000], sigBytes = 5\<rparr>
         @ wa_bytes \<lparr>words = [0x06070809, 0x0a0b0c00], sigBytes = 7\<rparr>
   \<and> Hash_update toy_hash (Hash_reset toy_hash)
         (WA \<lparr>words = [0x01020304, 0x05000000], sigBytes = 5\<rparr>)
       = Inr \<lparr>hash = \<lparr>words = [0x67452301, 0xefcdab89], sigBytes = 8\<rparr>,
              message = \<lparr>words = [0x01020304, 0x05000000], sigBytes = 5\<rparr>,
              length_total = 5\<rparr>
   \<and> Hash_update toy_hash
         \<lparr>hash = \<lparr>words = [0x67452301, 0xefcdab89], sigBytes = 8\<rparr>,
          message = \<lparr>words = [0x01020304, 0x05000000], sigBytes = 5\<rparr>,
          length_total = 5\<rparr>
         (WA \<lparr>words = [0x06070809, 0x0a0b0c00], sigBytes = 7\<rparr>)
       = Hash_update toy_hash (Hash_reset toy_hash)
           (WA \<lparr>words = [0x01020304, 0x05060708, 0x090a0b0c], sigBytes = 12\<rparr>)"
proof -
  let ?a = "\<lparr>words = [0x01020304, 0x05000000], sigBytes = 5\<rparr>"
  let ?b = "\<lparr>words = [0x06070809, 0x0a0b0c00], sigBytes = 7\<rparr>"
  let ?ab = "\<lparr>words = [0x01020304, 0x05060708, 0x090a0b0c], sigBytes = 12\<rparr>"
  have h: "0 < h_blockSize toy_hash" "0 \<le> sigBytes (message (Hash_reset toy_hash))"
    "0 \<le> sigBytes ?a" "0 \<le> sigBytes ?b"
    "sigBytes (message (Hash_reset toy_hash)) + sigBytes ?a + sigBytes ?b < 2 ^ 32"
    "sigBytes ?ab = sigBytes ?a + sigBytes ?b"
    by (simp_all add: toy_hash_def Hash_reset_def WordArray_create_def)
  have w: "wa_bytes ?ab = wa_bytes ?a @ wa_bytes ?b" by code_simp
  have u: "Hash_update toy_hash (Hash_reset toy_hash) (WA ?a)
       = Inr \<lparr>hash = \<lparr>words = [0x67452301, 0xefcdab89], sigBytes = 8\<rparr>,
              message = ?a, length_total = 5\<rparr>"
    by code_simp
  from Hash_update_split [OF h w] u h w show ?thesis by auto
qed

section \<open>algo-hmac.js: HMAC\<close>

text \<open>
  An HMAC instance: its hasher (an instance of the hash it was created with) and the two
  padded keys.
\<close>

record hmac =
  hm_hasher :: hasher
  hm_oKey :: wordarray
  hm_iKey :: wordarray

text \<open>
  The loop of \<open>init\<close> on one key: \<open>words[i] ^= c\<close> for \<open>i\<close> below the block size; a
  missing word reads as 0 and the write extends the array.
\<close>

definition xor_pad :: "word32 \<Rightarrow> word32 list \<Rightarrow> nat \<Rightarrow> word32 list" where
  "xor_pad c ws n = foldl (\<lambda>ws i. js_set ws i (js_get ws i XOR c)) ws [0 ..< n]"

text \<open>\<open>reset\<close>: \<open>hasher.reset(); hasher.update(this._iKey)\<close>.\<close>

definition HMAC_reset :: "hash_algo \<Rightarrow> hmac \<Rightarrow> error + hmac" where
  "HMAC_reset algo this =
     (case Hash_update algo (Hash_reset algo) (WA (hm_iKey this)) of
        Inl e \<Rightarrow> Inl e
      | Inr hasher \<Rightarrow> Inr (this\<lparr>hm_hasher := hasher\<rparr>))"

text \<open>
  \<open>init(hasher, key)\<close>: a fresh hasher, the key decoded from UTF-8 when it is a string
  and hashed when it is longer than a block, the two clones XORed with the pad
  constants and given the size of a block, then \<open>reset\<close>.
\<close>

definition HMAC_init :: "hash_algo \<Rightarrow> input \<Rightarrow> error + hmac" where
  "HMAC_init algo key =
     (let hasher = Hash_reset algo;
          key1 = (case key of Str s \<Rightarrow> Utf8_fromString s | WA w \<Rightarrow> w);
          hasherBlockSize = h_blockSize algo;
          hasherBlockSizeBytes = int hasherBlockSize * 4
      in case (if sigBytes key1 > hasherBlockSizeBytes
               then Hash_compute algo hasher (Some (WA key1))
               else Inr (key1, hasher)) of
           Inl e \<Rightarrow> Inl e
         | Inr (key2, hasher1) \<Rightarrow>
             HMAC_reset algo
               \<lparr>hm_hasher = hasher1,
                hm_oKey = \<lparr>words = xor_pad 0x5c5c5c5c (words (clone key2)) hasherBlockSize,
                           sigBytes = hasherBlockSizeBytes\<rparr>,
                hm_iKey = \<lparr>words = xor_pad 0x36363636 (words (clone key2)) hasherBlockSize,
                           sigBytes = hasherBlockSizeBytes\<rparr>\<rparr>)"

text \<open>\<open>update\<close> passes the message to the hasher.\<close>

definition HMAC_update :: "hash_algo \<Rightarrow> hmac \<Rightarrow> input \<Rightarrow> error + hmac" where
  "HMAC_update algo this messageUpdate =
     (case Hash_update algo (hm_hasher this) messageUpdate of
        Inl e \<Rightarrow> Inl e
      | Inr hasher \<Rightarrow> Inr (this\<lparr>hm_hasher := hasher\<rparr>))"

text \<open>
  \<open>compute(messageUpdate)\<close>. In
  \<open>hasher.compute(this._oKey.clone().concat(hasher.compute()))\<close> the inner
  \<open>hasher.compute()\<close> runs first and leaves the hasher reset; the outer call hashes the
  concatenation on it. The result is the MAC and the instance after the call.
\<close>

definition HMAC_compute ::
  "hash_algo \<Rightarrow> hmac \<Rightarrow> input option \<Rightarrow> error + (wordarray \<times> hmac)" where
  "HMAC_compute algo this messageUpdate =
     (case (case messageUpdate of
              None \<Rightarrow> Inr this
            | Some m \<Rightarrow> if truthy messageUpdate then HMAC_update algo this m else Inr this) of
        Inl e \<Rightarrow> Inl e
      | Inr this1 \<Rightarrow>
          (case Hash_compute algo (hm_hasher this1) None of
             Inl e \<Rightarrow> Inl e
           | Inr (inner, hasher1) \<Rightarrow>
               (case concat_wa (clone (hm_oKey this1)) inner of
                  Inl e \<Rightarrow> Inl e
                | Inr okin \<Rightarrow>
                    (case Hash_compute algo hasher1 (Some (WA okin)) of
                       Inl e \<Rightarrow> Inl e
                     | Inr (hmac, hasher2) \<Rightarrow>
                         (case HMAC_reset algo (this1\<lparr>hm_hasher := hasher2\<rparr>) of
                            Inl e \<Rightarrow> Inl e
                          | Inr this2 \<Rightarrow> Inr (hmac, this2))))))"

text \<open>
  A use of an instance: \<open>update\<close> for each message of a list, then \<open>compute\<close> with an
  optional last message.
\<close>

fun HMAC_updates :: "hash_algo \<Rightarrow> hmac \<Rightarrow> input list \<Rightarrow> error + hmac" where
  "HMAC_updates algo this [] = Inr this"
| "HMAC_updates algo this (m # ms) =
     (case HMAC_update algo this m of
        Inl e \<Rightarrow> Inl e
      | Inr this1 \<Rightarrow> HMAC_updates algo this1 ms)"

definition HMAC_run ::
  "hash_algo \<Rightarrow> hmac \<Rightarrow> input list \<Rightarrow> input option \<Rightarrow> error + (wordarray \<times> hmac)" where
  "HMAC_run algo this ms messageUpdate =
     (case HMAC_updates algo this ms of
        Inl e \<Rightarrow> Inl e
      | Inr this1 \<Rightarrow> HMAC_compute algo this1 messageUpdate)"

subsection \<open>The MAC by the words of the specification\<close>

text \<open>
  The digest of a list of messages: a fresh hash instance, \<open>update\<close> for each, \<open>compute()\<close>.
  By the specification the MAC is the outer digest over \<open>outerKey \<parallel> innerDigest\<close>, where
  the inner digest is that of \<open>innerKey\<close> followed by the messages.
\<close>

fun Hash_updates :: "hash_algo \<Rightarrow> hasher \<Rightarrow> input list \<Rightarrow> error + hasher" where
  "Hash_updates algo this [] = Inr this"
| "Hash_updates algo this (m # ms) =
     (case Hash_update algo this m of
        Inl e \<Rightarrow> Inl e
      | Inr this1 \<Rightarrow> Hash_updates algo this1 ms)"

definition Hash_digest :: "hash_algo \<Rightarrow> input list \<Rightarrow> error + wordarray" where
  "Hash_digest algo ms =
     (case Hash_updates algo (Hash_reset algo) ms of
        Inl e \<Rightarrow> Inl e
      | Inr this \<Rightarrow> map_sum id fst (Hash_compute algo this None))"

definition HMAC_spec ::
  "hash_algo \<Rightarrow> wordarray \<Rightarrow> wordarray \<Rightarrow> input list \<Rightarrow> error + wordarray" where
  "HMAC_spec algo outerKey innerKey ms =
     (case Hash_digest algo (WA innerKey # ms) of
        Inl e \<Rightarrow> Inl e
      | Inr innerDigest \<Rightarrow>
          (case concat_wa outerKey innerDigest of
             Inl e \<Rightarrow> Inl e
           | Inr x \<Rightarrow> Hash_digest algo [WA x]))"

text \<open>
  The messages that a use of an instance hashes (a last message that is absent or the
  empty string is not passed to \<open>update\<close>), and a message as a buffer.
\<close>

definition updates_of :: "input list \<Rightarrow> input option \<Rightarrow> input list" where
  "updates_of ms messageUpdate =
     ms @ (case messageUpdate of
             None \<Rightarrow> []
           | Some m \<Rightarrow> if truthy messageUpdate then [m] else [])"

definition to_wa :: "input \<Rightarrow> wordarray" where
  "to_wa m = (case m of Str s \<Rightarrow> Utf8_fromString s | WA w \<Rightarrow> w)"

lemma Hash_update_to_wa: "Hash_update algo this m = Hash_update algo this (WA (to_wa m))"
  by (simp add: Hash_update_def to_wa_def split: input.splits)

lemma Hash_update_ok:
  assumes n: "0 < h_blockSize algo"
    and m: "0 \<le> sigBytes (message this)" "0 \<le> sigBytes (to_wa x)"
      "sigBytes (message this) + sigBytes (to_wa x) < 2 ^ 32"
  shows "\<exists>this1. Hash_update algo this x = Inr this1
           \<and> 0 \<le> sigBytes (message this1)
           \<and> sigBytes (message this1) < 4 * int (h_blockSize algo)
           \<and> sigBytes (hash this1) = sigBytes (hash this)"
proof -
  have "length (pending (h_blockSize algo) (wa_bytes (message this) @ wa_bytes (to_wa x)))
        < 4 * h_blockSize algo"
    unfolding length_pending using n by simp
  then show ?thesis
    unfolding Hash_update_to_wa [of algo this x] Hash_update_spec [OF n m]
    by simp
qed

lemma Hash_updates_ok:
  assumes n: "0 < h_blockSize algo"
  shows "0 \<le> sigBytes (message this) \<Longrightarrow> sigBytes (message this) < 4 * int (h_blockSize algo)
    \<Longrightarrow> \<forall>m\<in>set ms. 0 \<le> sigBytes (to_wa m)
                   \<and> sigBytes (to_wa m) + 4 * int (h_blockSize algo) \<le> 2 ^ 32
    \<Longrightarrow> \<exists>this1. Hash_updates algo this ms = Inr this1
           \<and> 0 \<le> sigBytes (message this1)
           \<and> sigBytes (message this1) < 4 * int (h_blockSize algo)
           \<and> sigBytes (hash this1) = sigBytes (hash this)"
proof (induction ms arbitrary: this)
  case Nil
  then show ?case by simp
next
  case (Cons m ms)
  from Cons.prems have "0 \<le> sigBytes (to_wa m)"
    "sigBytes (message this) + sigBytes (to_wa m) < 2 ^ 32" by simp_all
  from Hash_update_ok [OF n Cons.prems(1) this]
  obtain t where t: "Hash_update algo this m = Inr t" "0 \<le> sigBytes (message t)"
    "sigBytes (message t) < 4 * int (h_blockSize algo)" "sigBytes (hash t) = sigBytes (hash this)"
    by blast
  from Cons.IH [OF t(2,3)] Cons.prems(3)
  obtain u where "Hash_updates algo t ms = Inr u" "0 \<le> sigBytes (message u)"
    "sigBytes (message u) < 4 * int (h_blockSize algo)" "sigBytes (hash u) = sigBytes (hash t)"
    by auto
  then show ?case using t by simp
qed

lemma Hash_updates_append:
  "Hash_updates algo this (xs @ ys)
   = (case Hash_updates algo this xs of
        Inl e \<Rightarrow> Inl e
      | Inr this1 \<Rightarrow> Hash_updates algo this1 ys)"
  by (induction xs arbitrary: this) (simp_all split: sum.splits)

lemma HMAC_updates_hasher:
  "HMAC_updates algo this ms
   = (case Hash_updates algo (hm_hasher this) ms of
        Inl e \<Rightarrow> Inl e
      | Inr hasher \<Rightarrow> Inr (this\<lparr>hm_hasher := hasher\<rparr>))"
  by (induction ms arbitrary: this) (simp_all add: HMAC_update_def split: sum.splits)

lemma HMAC_run_primed:
  assumes n: "0 < h_blockSize algo"
    and pr: "Hash_update algo (Hash_reset algo) (WA (hm_iKey this)) = Inr (hm_hasher this)"
    and ik: "0 \<le> sigBytes (hm_iKey this)" "sigBytes (hm_iKey this) < 2 ^ 32"
    and ok: "0 \<le> sigBytes (hm_oKey this)"
      "sigBytes (hm_oKey this) + 4 * int (length (h_initial algo)) < 2 ^ 32"
    and ms: "\<forall>m\<in>set (updates_of ms messageUpdate). 0 \<le> sigBytes (to_wa m)
                   \<and> sigBytes (to_wa m) + 4 * int (h_blockSize algo) \<le> 2 ^ 32"
    and dc: "\<forall>h. sigBytes (hash (h_doCompute algo h)) = sigBytes (hash h)"
  shows "\<exists>mac. HMAC_run algo this ms messageUpdate = Inr (mac, this)
             \<and> HMAC_spec algo (hm_oKey this) (hm_iKey this) (updates_of ms messageUpdate)
                 = Inr mac"
proof -
  define bs where "bs = h_blockSize algo"
  define U where "U = updates_of ms messageUpdate"
  have r: "sigBytes (message (Hash_reset algo)) = 0"
    "sigBytes (hash (Hash_reset algo)) = 4 * int (length (h_initial algo))"
    by (simp_all add: Hash_reset_def WordArray_create_def)
  have "0 \<le> sigBytes (message (Hash_reset algo))"
    "0 \<le> sigBytes (to_wa (WA (hm_iKey this)))"
    "sigBytes (message (Hash_reset algo)) + sigBytes (to_wa (WA (hm_iKey this))) < 2 ^ 32"
    using ik by (simp_all add: r to_wa_def)
  from Hash_update_ok [OF n this] pr
  have h0: "0 \<le> sigBytes (message (hm_hasher this))"
    "sigBytes (message (hm_hasher this)) < 4 * int (h_blockSize algo)"
    "sigBytes (hash (hm_hasher this)) = 4 * int (length (h_initial algo))"
    by (simp_all add: r)
  from Hash_updates_ok [OF n h0(1,2) ms]
  obtain st where st: "Hash_updates algo (hm_hasher this) U = Inr st"
    "sigBytes (hash st) = 4 * int (length (h_initial algo))"
    unfolding U_def using h0(3) by auto
  define inner where "inner = hash (h_doCompute algo st)"
  have si: "sigBytes inner = 4 * int (length (h_initial algo))"
    using dc st(2) by (simp add: inner_def)
  then have "0 \<le> sigBytes inner" "sigBytes (hm_oKey this) + sigBytes inner < 2 ^ 32"
    using ok by simp_all
  from concat_wa_pack [OF ok(1) this]
  obtain okin where okin: "concat_wa (hm_oKey this) inner = Inr okin"
    "sigBytes okin = sigBytes (hm_oKey this) + sigBytes inner"
    by simp
  have "0 \<le> sigBytes (message (Hash_reset algo))"
    "0 \<le> sigBytes (to_wa (WA okin))"
    "sigBytes (message (Hash_reset algo)) + sigBytes (to_wa (WA okin)) < 2 ^ 32"
    using ok si by (simp_all add: r to_wa_def okin(2))
  from Hash_update_ok [OF n this]
  obtain st2 where st2: "Hash_update algo (Hash_reset algo) (WA okin) = Inr st2" by blast
  define mac where "mac = hash (h_doCompute algo st2)"
  have c1: "Hash_compute algo st None = Inr (inner, Hash_reset algo)"
    by (simp add: Hash_compute_def inner_def)
  have c2: "Hash_compute algo (Hash_reset algo) (Some (WA okin)) = Inr (mac, Hash_reset algo)"
    by (simp add: Hash_compute_def truthy_def st2 mac_def)
  have c3: "Hash_compute algo st2 None = Inr (mac, Hash_reset algo)"
    by (simp add: Hash_compute_def mac_def)
  have rs: "HMAC_reset algo (this\<lparr>hm_hasher := h\<rparr>) = Inr this" for h
    by (simp add: HMAC_reset_def pr)
  have up: "(case HMAC_updates algo this ms of
               Inl e \<Rightarrow> Inl e
             | Inr this1 \<Rightarrow>
                 (case messageUpdate of
                    None \<Rightarrow> Inr this1
                  | Some m \<Rightarrow> if truthy messageUpdate then HMAC_update algo this1 m
                              else Inr this1))
            = Inr (this\<lparr>hm_hasher := st\<rparr>)"
    using st(1) unfolding U_def updates_of_def Hash_updates_append HMAC_updates_hasher
    by (auto simp: HMAC_update_def split: sum.splits option.splits if_splits)
  have run: "HMAC_run algo this ms messageUpdate = Inr (mac, this)"
    using up unfolding HMAC_run_def HMAC_compute_def
    by (auto simp: c1 c2 okin rs split: sum.splits)
  have "Hash_digest algo (WA (hm_iKey this) # U) = Inr inner"
    by (simp add: Hash_digest_def pr st c1)
  moreover have "Hash_digest algo [WA okin] = Inr mac"
    by (simp add: Hash_digest_def st2 c3)
  ultimately have "HMAC_spec algo (hm_oKey this) (hm_iKey this) U = Inr mac"
    by (simp add: HMAC_spec_def okin)
  with run show ?thesis unfolding U_def by blast
qed

lemma HMAC_init_instance:
  assumes "HMAC_init algo key = Inr this"
  shows "Hash_update algo (Hash_reset algo) (WA (hm_iKey this)) = Inr (hm_hasher this)"
    and "sigBytes (hm_iKey this) = 4 * int (h_blockSize algo)"
    and "sigBytes (hm_oKey this) = 4 * int (h_blockSize algo)"
  using assms unfolding HMAC_init_def HMAC_reset_def Let_def
  by (auto split: sum.splits prod.splits if_splits)

text \<open>
  Claim C8. Let \<open>this\<close> be an HMAC instance, created by \<open>init\<close> for a hash with a block
  of at least one word whose \<open>_doCompute\<close> leaves \<open>hash.sigBytes\<close> as \<open>reset\<close> set it, and
  let the messages be buffers or strings of at most \<open>2^32\<close> bytes less a block. Then the
  updates followed by \<open>compute\<close> return: the result is the outer digest over
  \<open>outerKey \<parallel> innerDigest\<close>, with the inner digest that of \<open>innerKey\<close> followed by the
  messages; the instance is left primed with \<open>innerKey\<close> (\<open>reset\<close> would not change it);
  and the same updates and \<open>compute\<close> on it again return the same MAC.
\<close>

theorem HMAC_compute_reusable:
  assumes n: "0 < h_blockSize algo"
    and i: "HMAC_init algo key = Inr this"
    and sz: "4 * int (h_blockSize algo) + 4 * int (length (h_initial algo)) < 2 ^ 32"
    and ms: "\<forall>m\<in>set (updates_of ms messageUpdate). 0 \<le> sigBytes (to_wa m)
                   \<and> sigBytes (to_wa m) + 4 * int (h_blockSize algo) \<le> 2 ^ 32"
    and dc: "\<forall>h. sigBytes (hash (h_doCompute algo h)) = sigBytes (hash h)"
  shows "\<exists>mac this1.
           HMAC_run algo this ms messageUpdate = Inr (mac, this1)
         \<and> HMAC_spec algo (hm_oKey this) (hm_iKey this) (updates_of ms messageUpdate) = Inr mac
         \<and> HMAC_reset algo this1 = Inr this1
         \<and> HMAC_run algo this1 ms messageUpdate = Inr (mac, this1)"
proof -
  note k = HMAC_init_instance [OF i]
  have "0 \<le> sigBytes (hm_iKey this)" "sigBytes (hm_iKey this) < 2 ^ 32"
    "0 \<le> sigBytes (hm_oKey this)"
    "sigBytes (hm_oKey this) + 4 * int (length (h_initial algo)) < 2 ^ 32"
    using sz unfolding k by simp_all
  from HMAC_run_primed [OF n k(1) this ms dc]
  obtain mac where "HMAC_run algo this ms messageUpdate = Inr (mac, this)"
    "HMAC_spec algo (hm_oKey this) (hm_iKey this) (updates_of ms messageUpdate) = Inr mac"
    by blast
  moreover have "HMAC_reset algo this = Inr this" by (simp add: HMAC_reset_def k(1))
  ultimately show ?thesis by blast
qed

text \<open>
  The theorem for the key \<open>key\<close> and the toy hash: two updates and a last message.
\<close>

theorem HMAC_compute_reusable_witness:
  "0 < h_blockSize toy_hash
   \<and> HMAC_init toy_hash (Str ''key'') = Inr
     \<lparr>hm_hasher = \<lparr>hash = \<lparr>words = [0x4d20fabf, 0x7fd5bc17], sigBytes = 8\<rparr>,
                     message = \<lparr>words = [], sigBytes = 0\<rparr>, length_total = 8\<rparr>,
        hm_oKey = \<lparr>words = [0x3739255c, 0x5c5c5c5c], sigBytes = 8\<rparr>,
        hm_iKey = \<lparr>words = [0x5d534f36, 0x36363636], sigBytes = 8\<rparr>\<rparr>
   \<and> 4 * int (h_blockSize toy_hash) + 4 * int (length (h_initial toy_hash)) < 2 ^ 32
   \<and> list_all
         (\<lambda>m. 0 \<le> sigBytes (to_wa m)
               \<and> sigBytes (to_wa m) + 4 * int (h_blockSize toy_hash) \<le> 2 ^ 32)
         (updates_of
            [Str ''ab'', WA \<lparr>words = [0x01020304, 0x05060708, 0x090a0000], sigBytes = 10\<rparr>]
            (Some (Str ''c'')))
   \<and> (\<forall>h. sigBytes (hash (h_doCompute toy_hash h)) = sigBytes (hash h))
   \<and> HMAC_run toy_hash
     \<lparr>hm_hasher = \<lparr>hash = \<lparr>words = [0x4d20fabf, 0x7fd5bc17], sigBytes = 8\<rparr>,
                     message = \<lparr>words = [], sigBytes = 0\<rparr>, length_total = 8\<rparr>,
        hm_oKey = \<lparr>words = [0x3739255c, 0x5c5c5c5c], sigBytes = 8\<rparr>,
        hm_iKey = \<lparr>words = [0x5d534f36, 0x36363636], sigBytes = 8\<rparr>\<rparr>
       [Str ''ab'', WA \<lparr>words = [0x01020304, 0x05060708, 0x090a0000], sigBytes = 10\<rparr>]
       (Some (Str ''c''))
     = Inr (\<lparr>words = [0x145b5b89, 0xbae3c8f0], sigBytes = 8\<rparr>,
     \<lparr>hm_hasher = \<lparr>hash = \<lparr>words = [0x4d20fabf, 0x7fd5bc17], sigBytes = 8\<rparr>,
                     message = \<lparr>words = [], sigBytes = 0\<rparr>, length_total = 8\<rparr>,
        hm_oKey = \<lparr>words = [0x3739255c, 0x5c5c5c5c], sigBytes = 8\<rparr>,
        hm_iKey = \<lparr>words = [0x5d534f36, 0x36363636], sigBytes = 8\<rparr>\<rparr>)
   \<and> HMAC_spec toy_hash \<lparr>words = [0x3739255c, 0x5c5c5c5c], sigBytes = 8\<rparr>
       \<lparr>words = [0x5d534f36, 0x36363636], sigBytes = 8\<rparr>
       [Str ''ab'', WA \<lparr>words = [0x01020304, 0x05060708, 0x090a0000], sigBytes = 10\<rparr>,
        Str ''c'']
     = Inr \<lparr>words = [0x145b5b89, 0xbae3c8f0], sigBytes = 8\<rparr>"
proof -
  let ?hm = "\<lparr>hm_hasher = \<lparr>hash = \<lparr>words = [0x4d20fabf, 0x7fd5bc17], sigBytes = 8\<rparr>,
                   message = \<lparr>words = [], sigBytes = 0\<rparr>, length_total = 8\<rparr>,
      hm_oKey = \<lparr>words = [0x3739255c, 0x5c5c5c5c], sigBytes = 8\<rparr>,
      hm_iKey = \<lparr>words = [0x5d534f36, 0x36363636], sigBytes = 8\<rparr>\<rparr>"
  let ?ms = "[Str ''ab'', WA \<lparr>words = [0x01020304, 0x05060708, 0x090a0000], sigBytes = 10\<rparr>]"
  have n: "0 < h_blockSize toy_hash"
    and sz: "4 * int (h_blockSize toy_hash) + 4 * int (length (h_initial toy_hash)) < 2 ^ 32"
    and dc: "\<forall>h. sigBytes (hash (h_doCompute toy_hash h)) = sigBytes (hash h)"
    by (simp_all add: toy_hash_def)
  have i: "HMAC_init toy_hash (Str ''key'') = Inr ?hm" by code_simp
  have u: "updates_of ?ms (Some (Str ''c'')) = ?ms @ [Str ''c'']"
    by (simp add: updates_of_def truthy_def)
  have ms: "\<forall>m\<in>set (updates_of ?ms (Some (Str ''c''))).
              0 \<le> sigBytes (to_wa m) \<and> sigBytes (to_wa m) + 4 * int (h_blockSize toy_hash) \<le> 2 ^ 32"
    by code_simp
  have r: "HMAC_run toy_hash ?hm ?ms (Some (Str ''c''))
           = Inr (\<lparr>words = [0x145b5b89, 0xbae3c8f0], sigBytes = 8\<rparr>, ?hm)"
    by code_simp
  from HMAC_compute_reusable [OF n i sz ms dc] r n i sz ms [unfolded Ball_set] dc
  show ?thesis unfolding u by auto
qed

section \<open>cipher-core.js: the cipher templates on a store\<close>

text \<open>
  The value of a buffer does not tell which other variables refer to it. Here the
  buffers live in a store, as the objects of JavaScript do: the arrays of words, and the
  \<open>WordArray\<close> objects, each a reference to its \<open>words\<close> array and its \<open>sigBytes\<close>. A
  reference is an index of the store, and a new array or object is put at the end. The
  methods of \<open>WordArray\<close> and of cipher-core.js that write to their arguments are given
  again, statement by statement, as reads and writes of the store.
\<close>

type_synonym ref = nat

record store =
  arrays :: "word32 list list"
  objects :: "(ref \<times> int) list"

text \<open>
  Reading: \<open>r.words\<close>, \<open>r.sigBytes\<close>, the elements of an array, and the value of a buffer.
  Writing: the elements of an array, the fields of an object. A reference is valid when
  it is below the size of the store.
\<close>

definition words_ref :: "store \<Rightarrow> ref \<Rightarrow> ref" where
  "words_ref s r = fst (objects s ! r)"

definition sigBytes_at :: "store \<Rightarrow> ref \<Rightarrow> int" where
  "sigBytes_at s r = snd (objects s ! r)"

definition array_at :: "store \<Rightarrow> ref \<Rightarrow> word32 list" where
  "array_at s a = arrays s ! a"

definition deref :: "store \<Rightarrow> ref \<Rightarrow> wordarray" where
  "deref s r = \<lparr>words = array_at s (words_ref s r), sigBytes = sigBytes_at s r\<rparr>"

definition array_put :: "store \<Rightarrow> ref \<Rightarrow> word32 list \<Rightarrow> store" where
  "array_put s a ws = s\<lparr>arrays := (arrays s)[a := ws]\<rparr>"

definition words_put :: "store \<Rightarrow> ref \<Rightarrow> ref \<Rightarrow> store" where
  "words_put s r a = s\<lparr>objects := (objects s)[r := (a, snd (objects s ! r))]\<rparr>"

definition sigBytes_put :: "store \<Rightarrow> ref \<Rightarrow> int \<Rightarrow> store" where
  "sigBytes_put s r n = s\<lparr>objects := (objects s)[r := (fst (objects s ! r), n)]\<rparr>"

definition new_array :: "store \<Rightarrow> word32 list \<Rightarrow> ref \<times> store" where
  "new_array s ws = (length (arrays s), s\<lparr>arrays := arrays s @ [ws]\<rparr>)"

definition new_object :: "store \<Rightarrow> ref \<Rightarrow> int \<Rightarrow> ref \<times> store" where
  "new_object s a n = (length (objects s), s\<lparr>objects := objects s @ [(a, n)]\<rparr>)"

text \<open>
  \<open>WordArray.create\<close> with a new array. \<open>clone\<close>: \<open>Base.clone\<close> makes a new object with
  the fields of \<open>this\<close>, then \<open>clone.words = this.words.slice(0)\<close> gives it a new array.
\<close>

definition create_st :: "wordarray \<Rightarrow> store \<Rightarrow> ref \<times> store" where
  "create_st wa s =
     (let (a, s1) = new_array s (words wa)
      in new_object s1 a (sigBytes wa))"

definition clone_st :: "ref \<Rightarrow> store \<Rightarrow> ref \<times> store" where
  "clone_st this s =
     (let (clone', s1) = new_object s (words_ref s this) (sigBytes_at s this);
          (a, s2) = new_array s1 (array_at s1 (words_ref s1 this))
      in (clone', words_put s2 clone' a))"

text \<open>
  \<open>clamp\<close> and \<open>concat\<close>. Each round of the loop of \<open>concat\<close> reads the array of the
  argument in the store as it then is.
\<close>

definition clamp_st :: "ref \<Rightarrow> store \<Rightarrow> (error + unit) \<times> store" where
  "clamp_st this s =
     (let words' = words_ref s this; sb = sigBytes_at s this; i = js_ushr sb 2;
          s1 = array_put s words'
                 (js_set (array_at s words') i
                    (js_get (array_at s words') i AND w_shl 0xffffffff (32 - js_rem sb 4 * 8)));
          n = - ((- sb) div 4)
      in if n < 0 \<or> 2 ^ 32 \<le> n then (Inl RangeError, s1)
         else (Inr (), array_put s1 words' (set_length (array_at s1 words') (nat n))))"

definition concat_step_st :: "ref \<Rightarrow> ref \<Rightarrow> store \<times> int \<Rightarrow> nat \<Rightarrow> store \<times> int" where
  "concat_step_st thisWords thatWords st i =
     (let s = fst st; thisSigBytes = snd st;
          thatByte = w_ushr (js_get (array_at s thatWords) (js_ushr (int i) 2))
                       (24 - int (i mod 4) * 8) AND 0xff;
          k = js_ushr thisSigBytes 2
      in (array_put s thisWords
            (js_set (array_at s thisWords) k
               (js_get (array_at s thisWords) k
                  OR w_shl thatByte (24 - js_rem thisSigBytes 4 * 8))),
          thisSigBytes + 1))"

definition concat_st :: "ref \<Rightarrow> ref \<Rightarrow> store \<Rightarrow> (error + unit) \<times> store" where
  "concat_st this that s =
     (let thisWords = words_ref s this; thatWords = words_ref s that;
          thisSigBytes = sigBytes_at s this; thatSigBytes = sigBytes_at s that
      in case clamp_st this s of
           (Inl e, s1) \<Rightarrow> (Inl e, s1)
         | (Inr u, s1) \<Rightarrow>
             (let r = foldl (concat_step_st thisWords thatWords) (s1, thisSigBytes)
                        [0 ..< nat thatSigBytes]
              in (Inr (), sigBytes_put (fst r) this (snd r))))"

text \<open>\<open>pad\<close> builds the padding in a new buffer and appends it; \<open>unpad\<close>.\<close>

definition PKCS5_pad_st :: "ref \<Rightarrow> nat \<Rightarrow> store \<Rightarrow> (error + unit) \<times> store" where
  "PKCS5_pad_st data blockSize' s =
     (let blockSizeBytes = int blockSize' * 4;
          nPaddingBytes =
            (if blockSizeBytes = 0 then 0
             else let d = blockSizeBytes - js_rem (sigBytes_at s data) blockSizeBytes
                  in if d = 0 then blockSizeBytes else d);
          n = (word_of_int nPaddingBytes :: word32);
          paddingWord = w_shl n 24 OR w_shl n 16 OR w_shl n 8 OR n;
          (padding, s1) = create_st (WordArray_create None None) s;
          paddingWords = words_ref s1 padding;
          s2 = array_put s1 paddingWords
                 (padding_loop 0 nPaddingBytes paddingWord (array_at s1 paddingWords));
          s3 = sigBytes_put s2 padding nPaddingBytes
      in concat_st data padding s3)"

definition PKCS5_unpad_st :: "ref \<Rightarrow> store \<Rightarrow> store" where
  "PKCS5_unpad_st data s =
     (let nPaddingBytes = js_get (array_at s (words_ref s data))
                            (js_ushr (sigBytes_at s data - 1) 2) AND 0xff
      in sigBytes_put s data (sigBytes_at s data - uint nPaddingBytes))"

text \<open>
  The CBC mode. \<open>_encryptBlock(words, offset)\<close> and \<open>_decryptBlock(words, offset)\<close> write
  the block in the array they are given, by the primitive contract.
\<close>

definition xorBlock_st :: "ref \<Rightarrow> ref \<Rightarrow> nat \<Rightarrow> nat \<Rightarrow> store \<Rightarrow> store" where
  "xorBlock_st dataWords ivWords offset blockSize' s =
     (if offset = 0
      then foldl (\<lambda>s i. array_put s dataWords
                    (js_set (array_at s dataWords) i
                       (js_get (array_at s dataWords) i XOR js_get (array_at s ivWords) i)))
             s [0 ..< blockSize']
      else foldl (\<lambda>s i. array_put s dataWords
                    (js_set (array_at s dataWords) (offset + i)
                       (js_get (array_at s dataWords) (offset + i)
                          XOR js_get_int (array_at s dataWords)
                                (int offset + int i - int blockSize'))))
             s [0 ..< blockSize'])"

definition encryptBlock_st :: "block_algo \<Rightarrow> wordarray \<Rightarrow> ref \<Rightarrow> nat \<Rightarrow> store \<Rightarrow> store" where
  "encryptBlock_st cipher key dataWords offset s =
     array_put s dataWords (encryptBlock_at cipher key (array_at s dataWords) offset)"

definition decryptBlock_st :: "block_algo \<Rightarrow> wordarray \<Rightarrow> ref \<Rightarrow> nat \<Rightarrow> store \<Rightarrow> store" where
  "decryptBlock_st cipher key dataWords offset s =
     array_put s dataWords (decryptBlock_at cipher key (array_at s dataWords) offset)"

partial_function (option) CBC_encrypt_loop_st ::
  "block_algo \<Rightarrow> wordarray \<Rightarrow> ref \<Rightarrow> ref \<Rightarrow> nat \<Rightarrow> nat \<Rightarrow> store \<Rightarrow> store option"
where
  "CBC_encrypt_loop_st cipher key messageWords ivWords messageWordsLength offset s =
     (if offset < messageWordsLength
      then CBC_encrypt_loop_st cipher key messageWords ivWords messageWordsLength
             (offset + blockSize cipher)
             (encryptBlock_st cipher key messageWords offset
                (xorBlock_st messageWords ivWords offset (blockSize cipher) s))
      else Some s)"

partial_function (option) CBC_decrypt_loop_st ::
  "block_algo \<Rightarrow> wordarray \<Rightarrow> ref \<Rightarrow> ref \<Rightarrow> int \<Rightarrow> store \<Rightarrow> store option"
where
  "CBC_decrypt_loop_st cipher key ciphertextWords ivWords offset s =
     (if 0 \<le> offset
      then CBC_decrypt_loop_st cipher key ciphertextWords ivWords
             (offset - int (blockSize cipher))
             (xorBlock_st ciphertextWords ivWords (nat offset) (blockSize cipher)
                (decryptBlock_st cipher key ciphertextWords (nat offset) s))
      else Some s)"

declare CBC_encrypt_loop_st.simps [code] CBC_decrypt_loop_st.simps [code]

definition CBC_encrypt_st ::
  "ref \<Rightarrow> block_algo \<Rightarrow> wordarray \<Rightarrow> ref option \<Rightarrow> store \<Rightarrow> ((error + unit) \<times> store) option"
where
  "CBC_encrypt_st message' cipher key iv s =
     (case iv of
        None \<Rightarrow> Some (Inl TypeError, s)
      | Some iv' \<Rightarrow>
          (let messageWords = words_ref s message'
           in case CBC_encrypt_loop_st cipher key messageWords (words_ref s iv')
                     (length (array_at s messageWords)) 0 s of
                None \<Rightarrow> None
              | Some s1 \<Rightarrow> Some (Inr (), s1)))"

definition CBC_decrypt_st ::
  "ref \<Rightarrow> block_algo \<Rightarrow> wordarray \<Rightarrow> ref option \<Rightarrow> store \<Rightarrow> ((error + unit) \<times> store) option"
where
  "CBC_decrypt_st ciphertext cipher key iv s =
     (case iv of
        None \<Rightarrow> Some (Inl TypeError, s)
      | Some iv' \<Rightarrow>
          (let ciphertextWords = words_ref s ciphertext
           in case CBC_decrypt_loop_st cipher key ciphertextWords (words_ref s iv')
                     (int (length (array_at s ciphertextWords)) - int (blockSize cipher)) s of
                None \<Rightarrow> None
              | Some s1 \<Rightarrow> Some (Inr (), s1)))"

text \<open>
  A configuration holds a reference to the IV; the message is a string or a reference;
  the key is a reference, read by \<open>_init\<close>.
\<close>

record cfg_st =
  st_iv :: "ref option"
  st_padding :: "padding option"
  st_mode :: "mode option"

datatype input_st = StrS string | Ref ref

definition Cipher_cfg_st :: "cipher \<Rightarrow> cfg_st \<Rightarrow> cfg_st" where
  "Cipher_cfg_st c overrides =
     (case c of
        Stream s \<Rightarrow> overrides
      | Block b \<Rightarrow>
          overrides\<lparr>st_padding := (case st_padding overrides of None \<Rightarrow> Some PKCS5 | Some p \<Rightarrow> Some p),
                    st_mode := (case st_mode overrides of None \<Rightarrow> Some CBC | Some m \<Rightarrow> Some m)\<rparr>)"

definition Block_doEncrypt_st ::
  "block_algo \<Rightarrow> ref \<Rightarrow> ref \<Rightarrow> cfg_st \<Rightarrow> store \<Rightarrow> ((error + unit) \<times> store) option" where
  "Block_doEncrypt_st this message' key cfg s =
     (case st_padding cfg of
        None \<Rightarrow> Some (Inl TypeError, s)
      | Some PKCS5 \<Rightarrow>
          (case PKCS5_pad_st message' (blockSize this) s of
             (Inl e, s1) \<Rightarrow> Some (Inl e, s1)
           | (Inr u, s1) \<Rightarrow>
               (case st_mode cfg of
                  None \<Rightarrow> Some (Inl TypeError, s1)
                | Some CBC \<Rightarrow> CBC_encrypt_st message' this (deref s1 key) (st_iv cfg) s1)))"

definition Block_doDecrypt_st ::
  "block_algo \<Rightarrow> ref \<Rightarrow> ref \<Rightarrow> cfg_st \<Rightarrow> store \<Rightarrow> ((error + unit) \<times> store) option" where
  "Block_doDecrypt_st this ciphertext key cfg s =
     (case st_mode cfg of
        None \<Rightarrow> Some (Inl TypeError, s)
      | Some CBC \<Rightarrow>
          (case CBC_decrypt_st ciphertext this (deref s key) (st_iv cfg) s of
             None \<Rightarrow> None
           | Some (Inl e, s1) \<Rightarrow> Some (Inl e, s1)
           | Some (Inr u, s1) \<Rightarrow>
               (case st_padding cfg of
                  None \<Rightarrow> Some (Inl TypeError, s1)
                | Some PKCS5 \<Rightarrow> Some (Inr (), PKCS5_unpad_st ciphertext s1))))"

text \<open>
  Modelled from the spec: \<open>_doEncrypt\<close> of a stream cipher (none is in the source files)
  transforms the message it is given in place.
\<close>

definition Stream_doEncrypt_st ::
  "stream_algo \<Rightarrow> ref \<Rightarrow> ref \<Rightarrow> cfg_st \<Rightarrow> store \<Rightarrow> ((error + unit) \<times> store) option" where
  "Stream_doEncrypt_st this message' key cfg s =
     (case stream_doEncrypt this (deref s message') (deref s key)
             \<lparr>cfg_iv = map_option (deref s) (st_iv cfg),
              cfg_padding = st_padding cfg, cfg_mode = st_mode cfg\<rparr> of
        None \<Rightarrow> None
      | Some (Inl e) \<Rightarrow> Some (Inl e, s)
      | Some (Inr m) \<Rightarrow>
          Some (Inr (), sigBytes_put (array_put s (words_ref s message') (words m))
                          message' (sigBytes m)))"

definition doEncrypt_st ::
  "cipher \<Rightarrow> ref \<Rightarrow> ref \<Rightarrow> cfg_st \<Rightarrow> store \<Rightarrow> ((error + unit) \<times> store) option" where
  "doEncrypt_st c = (case c of Block b \<Rightarrow> Block_doEncrypt_st b | Stream t \<Rightarrow> Stream_doEncrypt_st t)"

definition doDecrypt_st ::
  "cipher \<Rightarrow> ref \<Rightarrow> ref \<Rightarrow> cfg_st \<Rightarrow> store \<Rightarrow> ((error + unit) \<times> store) option" where
  "doDecrypt_st c = (case c of Block b \<Rightarrow> Block_doDecrypt_st b | Stream t \<Rightarrow> Stream_doEncrypt_st t)"

text \<open>
  \<open>Cipher.encrypt\<close> and \<open>Cipher.decrypt\<close>: the result is the reference returned, or the
  error raised, and the store after the call.
\<close>

definition Cipher_encrypt_st ::
  "cipher \<Rightarrow> input_st \<Rightarrow> ref \<Rightarrow> cfg_st \<Rightarrow> store \<Rightarrow> ((error + ref) \<times> store) option" where
  "Cipher_encrypt_st this message' key cfg s =
     (let cfg' = Cipher_cfg_st this cfg;
          (message'', s1) = (case message' of
                              StrS str \<Rightarrow> create_st (Utf8_fromString str) s
                            | Ref m \<Rightarrow> clone_st m s)
      in case doEncrypt_st this message'' key cfg' s1 of
           None \<Rightarrow> None
         | Some (Inl e, s2) \<Rightarrow> Some (Inl e, s2)
         | Some (Inr u, s2) \<Rightarrow> Some (Inr message'', s2))"

definition Cipher_decrypt_st ::
  "cipher \<Rightarrow> input_st \<Rightarrow> ref \<Rightarrow> cfg_st \<Rightarrow> store \<Rightarrow> ((error + ref) \<times> store) option" where
  "Cipher_decrypt_st this ciphertext key cfg s =
     (let cfg' = Cipher_cfg_st this cfg
      in case (case ciphertext of
                 StrS str \<Rightarrow> (case WordArray_encoder_fromString str of
                                Inl e \<Rightarrow> Inl e
                              | Inr wa \<Rightarrow> Inr (create_st wa s))
               | Ref c \<Rightarrow> Inr (clone_st c s)) of
           Inl e \<Rightarrow> Some (Inl e, s)
         | Inr (ciphertext', s1) \<Rightarrow>
             (case doDecrypt_st this ciphertext' key cfg' s1 of
                None \<Rightarrow> None
              | Some (Inl e, s2) \<Rightarrow> Some (Inl e, s2)
              | Some (Inr u, s2) \<Rightarrow> Some (Inr ciphertext', s2)))"

subsection \<open>The frame of a call\<close>

text \<open>
  \<open>keeps s0 s\<close>: the arrays and objects of \<open>s0\<close> are in \<open>s\<close>, unchanged. \<open>owned s0 r s\<close>:
  the object \<open>r\<close> of \<open>s\<close> and its array are not in \<open>s0\<close>.
\<close>

definition keeps :: "store \<Rightarrow> store \<Rightarrow> bool" where
  "keeps s0 s = (take (length (arrays s0)) (arrays s) = arrays s0
               \<and> take (length (objects s0)) (objects s) = objects s0)"

definition owned :: "store \<Rightarrow> ref \<Rightarrow> store \<Rightarrow> bool" where
  "owned s0 r s = (length (objects s0) \<le> r \<and> r < length (objects s)
                 \<and> length (arrays s0) \<le> words_ref s r)"

lemma keeps_refl: "keeps s s"
  by (simp add: keeps_def)

lemma keeps_lengths:
  assumes "keeps s0 s"
  shows "length (arrays s0) \<le> length (arrays s)" "length (objects s0) \<le> length (objects s)"
proof -
  have "length (take (length (arrays s0)) (arrays s)) = length (arrays s0)"
    "length (take (length (objects s0)) (objects s)) = length (objects s0)"
    using assms by (simp_all only: keeps_def)
  then show "length (arrays s0) \<le> length (arrays s)" "length (objects s0) \<le> length (objects s)"
    by simp_all
qed

lemma objects_array_put [simp]: "objects (array_put s a ws) = objects s"
  by (simp add: array_put_def)

lemma words_ref_array_put [simp]: "words_ref (array_put s a ws) r = words_ref s r"
  by (simp add: words_ref_def)

lemma owned_array_put [simp]: "owned s0 r (array_put s a ws) = owned s0 r s"
  by (simp add: owned_def)

lemma keeps_array_put:
  "keeps s0 s \<Longrightarrow> length (arrays s0) \<le> a \<Longrightarrow> keeps s0 (array_put s a ws)"
  by (simp add: keeps_def array_put_def)

lemma words_ref_sigBytes_put [simp]: "words_ref (sigBytes_put s r' n) r = words_ref s r"
  by (cases "r' < length (objects s)")
     (simp_all add: words_ref_def sigBytes_put_def nth_list_update not_less list_update_beyond)

lemma length_objects_sigBytes_put [simp]:
  "length (objects (sigBytes_put s r n)) = length (objects s)"
  by (simp add: sigBytes_put_def)

lemma owned_sigBytes_put [simp]: "owned s0 r (sigBytes_put s r' n) = owned s0 r s"
  by (simp add: owned_def)

lemma keeps_sigBytes_put:
  "keeps s0 s \<Longrightarrow> length (objects s0) \<le> r \<Longrightarrow> keeps s0 (sigBytes_put s r n)"
  by (simp add: keeps_def sigBytes_put_def)

lemma keeps_words_put:
  "keeps s0 s \<Longrightarrow> length (objects s0) \<le> r \<Longrightarrow> keeps s0 (words_put s r a)"
  by (simp add: keeps_def words_put_def)

lemma keeps_new_array: "keeps s0 s \<Longrightarrow> keeps s0 (snd (new_array s ws))"
  using keeps_lengths [of s0 s] by (simp add: keeps_def new_array_def)

lemma keeps_new_object: "keeps s0 s \<Longrightarrow> keeps s0 (snd (new_object s a n))"
  using keeps_lengths [of s0 s] by (simp add: keeps_def new_object_def)

lemma owned_new_array: "owned s0 r s \<Longrightarrow> owned s0 r (snd (new_array s ws))"
  by (simp add: owned_def new_array_def words_ref_def)

lemma owned_new_object: "owned s0 r s \<Longrightarrow> owned s0 r (snd (new_object s a n))"
  by (simp add: owned_def new_object_def words_ref_def nth_append)

lemma create_st_frame:
  assumes "keeps s0 s"
  shows "keeps s0 (snd (create_st wa s))" "owned s0 (fst (create_st wa s)) (snd (create_st wa s))"
    "owned s0 r s \<Longrightarrow> owned s0 r (snd (create_st wa s))"
  using keeps_lengths [OF assms] assms
  by (simp_all add: create_st_def new_array_def new_object_def keeps_def owned_def
        words_ref_def nth_append)

lemma clone_st_frame:
  assumes "keeps s0 s"
  shows "keeps s0 (snd (clone_st this s))" "owned s0 (fst (clone_st this s)) (snd (clone_st this s))"
  using keeps_lengths [OF assms] assms
  by (simp_all add: clone_st_def new_array_def new_object_def words_put_def keeps_def owned_def
        words_ref_def nth_append Let_def split: prod.splits)

lemma clamp_st_frame:
  assumes "keeps s0 s" "owned s0 this s"
  shows "keeps s0 (snd (clamp_st this s))" "objects (snd (clamp_st this s)) = objects s"
  using assms
  by (simp_all add: clamp_st_def Let_def keeps_array_put owned_def)

lemma foldl_invariant:
  assumes "P s" "\<And>s i. P s \<Longrightarrow> P (f s i)"
  shows "P (foldl f s xs)"
  using assms(1) by (induction xs arbitrary: s) (simp_all add: assms(2))

lemma concat_st_frame:
  assumes "keeps s0 s" "owned s0 this s"
  shows "keeps s0 (snd (concat_st this that s))" "owned s0 this (snd (concat_st this that s))"
    "owned s0 r s \<Longrightarrow> owned s0 r (snd (concat_st this that s))"
proof -
  obtain e s1 where c: "clamp_st this s = (e, s1)" by (cases "clamp_st this s")
  have k1: "keeps s0 s1" and o1: "objects s1 = objects s"
    using clamp_st_frame [OF assms] by (simp_all add: c)
  define P where "P = (\<lambda>st :: store \<times> int. keeps s0 (fst st) \<and> objects (fst st) = objects s)"
  define t where "t = fst (foldl (concat_step_st (words_ref s this) (words_ref s that))
             (s1, sigBytes_at s this) [0 ..< nat (sigBytes_at s that)])"
  have a: "length (arrays s0) \<le> words_ref s this" using assms(2) by (simp add: owned_def)
  have "P (foldl (concat_step_st (words_ref s this) (words_ref s that))
             (s1, sigBytes_at s this) [0 ..< nat (sigBytes_at s that)])"
    by (rule foldl_invariant) (simp_all add: P_def k1 o1 concat_step_st_def Let_def keeps_array_put a)
  then have f: "keeps s0 t" "objects t = objects s"
    by (simp_all add: P_def t_def)
  have l: "length (objects s0) \<le> this" using assms(2) by (simp add: owned_def)
  have ow: "owned s0 r' u = owned s0 r' s" if "objects u = objects s" for u r'
    using that by (simp add: owned_def words_ref_def)
  define n where "n = snd (foldl (concat_step_st (words_ref s this) (words_ref s that))
                        (s1, sigBytes_at s this) [0 ..< nat (sigBytes_at s that)])"
  have r: "snd (concat_st this that s) = s1 \<or> snd (concat_st this that s) = sigBytes_put t this n"
    by (cases e) (simp_all add: concat_st_def Let_def c t_def n_def)
  have k2: "keeps s0 (sigBytes_put t this n)" using f(1) l by (rule keeps_sigBytes_put)
  have o2: "owned s0 r' (sigBytes_put t this n) = owned s0 r' s" for r'
    unfolding owned_sigBytes_put using f(2) by (rule ow)
  have o3: "owned s0 r' s1 = owned s0 r' s" for r'
    using o1 by (rule ow)
  show "keeps s0 (snd (concat_st this that s))"
    using r k1 k2 by auto
  show "owned s0 this (snd (concat_st this that s))"
    using r assms(2) o2 o3 by auto
  show "owned s0 r s \<Longrightarrow> owned s0 r (snd (concat_st this that s))"
    using r o2 o3 by auto
qed

lemma PKCS5_pad_st_frame:
  assumes "keeps s0 s" "owned s0 data s"
  shows "keeps s0 (snd (PKCS5_pad_st data bs s))" "owned s0 data (snd (PKCS5_pad_st data bs s))"
proof -
  obtain padding s1 where c: "create_st (WordArray_create None None) s = (padding, s1)"
    by (cases "create_st (WordArray_create None None) s")
  have k1: "keeps s0 s1" and p1: "owned s0 padding s1" and d1: "owned s0 data s1"
    using create_st_frame(1,2) [OF assms(1), where wa = "WordArray_create None None"]
      create_st_frame(3) [OF assms(1) assms(2), where wa = "WordArray_create None None"]
    by (simp_all add: c)
  have pw: "length (arrays s0) \<le> words_ref s1 padding" "length (objects s0) \<le> padding"
    using p1 by (simp_all add: owned_def)
  define s3 where "s3 = (\<lambda>ws n. sigBytes_put (array_put s1 (words_ref s1 padding) ws) padding n)"
  have k3: "keeps s0 (s3 ws n)" for ws n
    unfolding s3_def using k1 pw by (intro keeps_sigBytes_put keeps_array_put)
  have d3: "owned s0 data (s3 ws n)" for ws n
    unfolding s3_def using d1 by simp
  have "\<exists>ws n. PKCS5_pad_st data bs s = concat_st data padding (s3 ws n)"
    unfolding PKCS5_pad_st_def Let_def c s3_def prod.case by blast
  then obtain ws n where r: "PKCS5_pad_st data bs s = concat_st data padding (s3 ws n)"
    by blast
  show "keeps s0 (snd (PKCS5_pad_st data bs s))" "owned s0 data (snd (PKCS5_pad_st data bs s))"
    unfolding r using concat_st_frame [OF k3 d3] by simp_all
qed

lemma PKCS5_unpad_st_frame:
  assumes "keeps s0 s" "owned s0 data s"
  shows "keeps s0 (PKCS5_unpad_st data s)" "owned s0 data (PKCS5_unpad_st data s)"
  using assms by (simp_all add: PKCS5_unpad_st_def Let_def keeps_sigBytes_put owned_def)

lemma objects_xorBlock_st [simp]:
  "objects (xorBlock_st dataWords ivWords offset n s) = objects s"
  unfolding xorBlock_st_def
  by (cases "offset = 0"; simp only: if_True if_False; rule foldl_invariant) simp_all

lemma keeps_xorBlock_st:
  assumes "keeps s0 s" "length (arrays s0) \<le> dataWords"
  shows "keeps s0 (xorBlock_st dataWords ivWords offset n s)"
  unfolding xorBlock_st_def
  by (cases "offset = 0"; simp only: if_True if_False; rule foldl_invariant)
     (simp_all add: assms keeps_array_put)

lemma objects_cryptBlock_st [simp]:
  "objects (encryptBlock_st cipher key dataWords offset s) = objects s"
  "objects (decryptBlock_st cipher key dataWords offset s) = objects s"
  by (simp_all add: encryptBlock_st_def decryptBlock_st_def)

lemma keeps_cryptBlock_st:
  assumes "keeps s0 s" "length (arrays s0) \<le> dataWords"
  shows "keeps s0 (encryptBlock_st cipher key dataWords offset s)"
    "keeps s0 (decryptBlock_st cipher key dataWords offset s)"
  using assms by (simp_all add: encryptBlock_st_def decryptBlock_st_def keeps_array_put)

lemma CBC_encrypt_loop_st_frame:
  assumes "CBC_encrypt_loop_st cipher key messageWords ivWords n offset s = Some s'"
  shows "keeps s0 s \<longrightarrow> length (arrays s0) \<le> messageWords
         \<longrightarrow> keeps s0 s' \<and> objects s' = objects s"
  by (rule CBC_encrypt_loop_st.raw_induct
        [where P = "\<lambda>cipher key messageWords ivWords n offset s s'.
             keeps s0 s \<longrightarrow> length (arrays s0) \<le> messageWords
             \<longrightarrow> keeps s0 s' \<and> objects s' = objects s", OF _ assms])
     (auto split: if_splits simp add: keeps_xorBlock_st keeps_cryptBlock_st)

lemma CBC_decrypt_loop_st_frame:
  assumes "CBC_decrypt_loop_st cipher key ciphertextWords ivWords offset s = Some s'"
  shows "keeps s0 s \<longrightarrow> length (arrays s0) \<le> ciphertextWords
         \<longrightarrow> keeps s0 s' \<and> objects s' = objects s"
  by (rule CBC_decrypt_loop_st.raw_induct
        [where P = "\<lambda>cipher key ciphertextWords ivWords offset s s'.
             keeps s0 s \<longrightarrow> length (arrays s0) \<le> ciphertextWords
             \<longrightarrow> keeps s0 s' \<and> objects s' = objects s", OF _ assms])
     (auto split: if_splits simp add: keeps_xorBlock_st keeps_cryptBlock_st)

lemma owned_objects: "objects t = objects s \<Longrightarrow> owned s0 r t = owned s0 r s"
  by (simp add: owned_def words_ref_def)

lemma CBC_st_frame:
  assumes "keeps s0 s" "owned s0 m s"
  shows "CBC_encrypt_st m cipher key iv s = Some (r, s') \<Longrightarrow> keeps s0 s' \<and> owned s0 m s'"
    and "CBC_decrypt_st m cipher key iv s = Some (r, s') \<Longrightarrow> keeps s0 s' \<and> owned s0 m s'"
proof -
  have a: "length (arrays s0) \<le> words_ref s m" using assms(2) by (simp add: owned_def)
  have l: "keeps s0 s' \<and> owned s0 m s'" if "keeps s0 s' \<and> objects s' = objects s" for s'
    using that assms(2) owned_objects [of s' s s0 m] by simp
  show "keeps s0 s' \<and> owned s0 m s'" if e: "CBC_encrypt_st m cipher key iv s = Some (r, s')"
  proof (cases iv)
    case None
    then show ?thesis using e assms by (simp add: CBC_encrypt_st_def)
  next
    case (Some iv')
    then have "CBC_encrypt_loop_st cipher key (words_ref s m) (words_ref s iv')
                 (length (array_at s (words_ref s m))) 0 s = Some s'"
      using e by (simp add: CBC_encrypt_st_def Let_def split: option.splits)
    from CBC_encrypt_loop_st_frame [OF this, of s0] assms(1) a show ?thesis by (intro l) simp
  qed
  show "keeps s0 s' \<and> owned s0 m s'" if e: "CBC_decrypt_st m cipher key iv s = Some (r, s')"
  proof (cases iv)
    case None
    then show ?thesis using e assms by (simp add: CBC_decrypt_st_def)
  next
    case (Some iv')
    then have "CBC_decrypt_loop_st cipher key (words_ref s m) (words_ref s iv')
                 (int (length (array_at s (words_ref s m))) - int (blockSize cipher)) s = Some s'"
      using e by (simp add: CBC_decrypt_st_def Let_def split: option.splits)
    from CBC_decrypt_loop_st_frame [OF this, of s0] assms(1) a show ?thesis by (intro l) simp
  qed
qed

lemma Block_doEncrypt_st_frame:
  assumes k: "keeps s0 s" and o: "owned s0 m s"
    and e: "Block_doEncrypt_st b m key cfg s = Some (r, s')"
  shows "keeps s0 s' \<and> owned s0 m s'"
proof (cases "st_padding cfg")
  case None
  then show ?thesis using e k o by (simp add: Block_doEncrypt_st_def)
next
  case (Some p)
  obtain x s1 where p: "PKCS5_pad_st m (blockSize b) s = (x, s1)"
    by (cases "PKCS5_pad_st m (blockSize b) s")
  have k1: "keeps s0 s1" "owned s0 m s1"
    using PKCS5_pad_st_frame [OF k o, of "blockSize b"] by (simp_all add: p)
  show ?thesis
  proof (cases x)
    case (Inl err)
    then show ?thesis using e k1 Some p
      by (cases p) (simp add: Block_doEncrypt_st_def)
  next
    case (Inr u)
    show ?thesis
    proof (cases "st_mode cfg")
      case None
      then show ?thesis using e k1 Some p Inr
        by (cases p) (simp add: Block_doEncrypt_st_def)
    next
      case (Some md)
      then have "CBC_encrypt_st m b (deref s1 key) (st_iv cfg) s1 = Some (r, s')"
        using e \<open>st_padding cfg = Some p\<close> p Inr
        by (cases p; cases md) (simp add: Block_doEncrypt_st_def)
      from CBC_st_frame(1) [OF k1 this] show ?thesis .
    qed
  qed
qed

lemma Block_doDecrypt_st_frame:
  assumes k: "keeps s0 s" and o: "owned s0 m s"
    and e: "Block_doDecrypt_st b m key cfg s = Some (r, s')"
  shows "keeps s0 s' \<and> owned s0 m s'"
proof (cases "st_mode cfg")
  case None
  then show ?thesis using e k o by (simp add: Block_doDecrypt_st_def)
next
  case (Some md)
  then obtain x s1 where c: "CBC_decrypt_st m b (deref s key) (st_iv cfg) s = Some (x, s1)"
    using e by (cases md; cases "CBC_decrypt_st m b (deref s key) (st_iv cfg) s")
               (auto simp add: Block_doDecrypt_st_def)
  from CBC_st_frame(2) [OF k o this] have k1: "keeps s0 s1" "owned s0 m s1" by simp_all
  have u: "keeps s0 (PKCS5_unpad_st m s1) \<and> owned s0 m (PKCS5_unpad_st m s1)"
    using PKCS5_unpad_st_frame [OF k1] by simp
  have "s' = s1 \<or> s' = PKCS5_unpad_st m s1"
    using e Some c
    by (cases md; cases x; cases "st_padding cfg")
       (auto simp add: Block_doDecrypt_st_def split: padding.splits)
  then show ?thesis using k1 u by auto
qed

lemma Stream_doEncrypt_st_frame:
  assumes k: "keeps s0 s" and o: "owned s0 m s"
    and e: "Stream_doEncrypt_st t m key cfg s = Some (r, s')"
  shows "keeps s0 s' \<and> owned s0 m s'"
proof -
  have a: "length (arrays s0) \<le> words_ref s m" "length (objects s0) \<le> m"
    using o by (simp_all add: owned_def)
  have "keeps s0 (sigBytes_put (array_put s (words_ref s m) ws) m n)
        \<and> owned s0 m (sigBytes_put (array_put s (words_ref s m) ws) m n)" for ws n
    using k o a by (simp add: keeps_sigBytes_put keeps_array_put)
  moreover have "s' = s \<or> (\<exists>ws n. s' = sigBytes_put (array_put s (words_ref s m) ws) m n)"
    using e by (auto simp add: Stream_doEncrypt_st_def split: option.splits sum.splits)
  ultimately show ?thesis using k o by auto
qed

lemma do_st_frame:
  assumes k: "keeps s0 s" and o: "owned s0 m s"
  shows "doEncrypt_st c m key cfg s = Some (r, s') \<Longrightarrow> keeps s0 s' \<and> owned s0 m s'"
    and "doDecrypt_st c m key cfg s = Some (r, s') \<Longrightarrow> keeps s0 s' \<and> owned s0 m s'"
  using Block_doEncrypt_st_frame [OF k o] Block_doDecrypt_st_frame [OF k o]
    Stream_doEncrypt_st_frame [OF k o]
  by (cases c; simp add: doEncrypt_st_def doDecrypt_st_def)+

lemma Cipher_encrypt_st_frame:
  assumes "Cipher_encrypt_st c input key cfg s = Some (r, s')"
  shows "keeps s s' \<and> (\<forall>out. r = Inr out \<longrightarrow> owned s out s')"
proof -
  obtain m s1 where i: "(case input of StrS str \<Rightarrow> create_st (Utf8_fromString str) s
                                     | Ref m \<Rightarrow> clone_st m s) = (m, s1)"
    by (cases "case input of StrS str \<Rightarrow> create_st (Utf8_fromString str) s
                           | Ref m \<Rightarrow> clone_st m s")
  have "keeps s s1 \<and> owned s m s1"
  proof (cases input)
    case (StrS str)
    then have "create_st (Utf8_fromString str) s = (m, s1)" using i by simp
    then show ?thesis
      using create_st_frame(1,2) [OF keeps_refl, where wa = "Utf8_fromString str" and s = s]
      by simp
  next
    case (Ref m0)
    then have "clone_st m0 s = (m, s1)" using i by simp
    then show ?thesis
      using clone_st_frame [OF keeps_refl, where this = m0 and s = s] by simp
  qed
  then have k1: "keeps s s1" "owned s m s1" by simp_all
  obtain x where d: "doEncrypt_st c m key (Cipher_cfg_st c cfg) s1 = Some (x, s')"
    and rx: "r = Inr out \<Longrightarrow> out = m" for out
    using assms by (auto simp add: Cipher_encrypt_st_def Let_def i split: option.splits sum.splits)
  from do_st_frame(1) [OF k1 d] rx show ?thesis by auto
qed

lemma Cipher_decrypt_st_frame:
  assumes "Cipher_decrypt_st c input key cfg s = Some (r, s')"
  shows "keeps s s' \<and> (\<forall>out. r = Inr out \<longrightarrow> owned s out s')"
proof (cases "case input of
                 StrS str \<Rightarrow> (case WordArray_encoder_fromString str of
                                Inl e \<Rightarrow> Inl e
                              | Inr wa \<Rightarrow> Inr (create_st wa s))
               | Ref c \<Rightarrow> Inr (clone_st c s)")
  case (Inl e)
  then show ?thesis using assms by (auto simp add: Cipher_decrypt_st_def Let_def keeps_refl)
next
  case (Inr p)
  obtain m s1 where p: "p = (m, s1)" by (cases p)
  have "keeps s s1 \<and> owned s m s1"
  proof (cases input)
    case (StrS str)
    then obtain wa where "create_st wa s = (m, s1)"
      using Inr p by (auto split: sum.splits)
    then show ?thesis
      using create_st_frame(1,2) [OF keeps_refl, where wa = wa and s = s] by simp
  next
    case (Ref m0)
    then have "clone_st m0 s = (m, s1)" using Inr p by simp
    then show ?thesis
      using clone_st_frame [OF keeps_refl, where this = m0 and s = s] by simp
  qed
  then have k1: "keeps s s1" "owned s m s1" by simp_all
  obtain x where d: "doDecrypt_st c m key (Cipher_cfg_st c cfg) s1 = Some (x, s')"
    and rx: "r = Inr out \<Longrightarrow> out = m" for out
    using assms Inr p
    by (auto simp add: Cipher_decrypt_st_def Let_def split: option.splits sum.splits)
  from do_st_frame(2) [OF k1 d] rx show ?thesis by auto
qed

lemma keeps_deref:
  assumes "keeps s s'" "b < length (objects s)" "words_ref s b < length (arrays s)"
  shows "deref s' b = deref s b"
proof -
  have "take (length (objects s)) (objects s') ! b = objects s' ! b"
    "take (length (arrays s)) (arrays s') ! words_ref s b = arrays s' ! words_ref s b"
    using assms(2,3) by simp_all
  then have "objects s' ! b = objects s ! b" "arrays s' ! words_ref s b = arrays s ! words_ref s b"
    using assms(1) by (simp_all add: keeps_def)
  then show ?thesis by (simp add: deref_def words_ref_def sigBytes_at_def array_at_def)
qed

text \<open>
  Claim C7. When a call of \<open>Cipher.encrypt\<close> or \<open>Cipher.decrypt\<close> ends, by a return or
  by an exception, every array and every object that was in the store before the call
  is as it was: so is the caller's buffer, its words and its \<open>sigBytes\<close>, also when the
  same buffer is given as the IV or the key. The buffer returned is a new object with a
  new array: the engine works on the clone.
\<close>

theorem Cipher_frame:
  assumes "Cipher_encrypt_st c input key cfg s = Some (r, s')
         \<or> Cipher_decrypt_st c input key cfg s = Some (r, s')"
  shows "take (length (arrays s)) (arrays s') = arrays s
       \<and> take (length (objects s)) (objects s') = objects s
       \<and> (\<forall>b. b < length (objects s) \<and> words_ref s b < length (arrays s)
              \<longrightarrow> deref s' b = deref s b)
       \<and> (\<forall>out. r = Inr out
              \<longrightarrow> length (objects s) \<le> out \<and> length (arrays s) \<le> words_ref s' out)"
proof -
  have k: "keeps s s' \<and> (\<forall>out. r = Inr out \<longrightarrow> owned s out s')"
    using assms Cipher_encrypt_st_frame Cipher_decrypt_st_frame by blast
  then show ?thesis using keeps_deref [of s s'] by (simp add: keeps_def owned_def)
qed

text \<open>
  The theorem for the toy cipher on a 5-byte message: the store after the call holds
  the three buffers of the caller, the ciphertext and the padding.
\<close>

theorem Cipher_frame_witness:
  "Cipher_encrypt_st (Block toy_cipher) (Ref 0) 1 \<lparr>st_iv = Some 2, st_padding = None, st_mode = None\<rparr>
       \<lparr>arrays = [[0x61626364, 0x65000000], [7], [1, 2]],
          objects = [(0, 5), (1, 4), (2, 8)]\<rparr>
     = Some (Inr 3,
       \<lparr>arrays = [[0x61626364, 0x65000000], [7], [1, 2],
                    [0x65030308, 0x6162636C], [0x03030303]],
          objects = [(0, 5), (1, 4), (2, 8), (3, 8), (4, 3)]\<rparr>)
   \<and> take 3 (arrays
       \<lparr>arrays = [[0x61626364, 0x65000000], [7], [1, 2],
                    [0x65030308, 0x6162636C], [0x03030303]],
          objects = [(0, 5), (1, 4), (2, 8), (3, 8), (4, 3)]\<rparr>)
     = arrays
       \<lparr>arrays = [[0x61626364, 0x65000000], [7], [1, 2]],
          objects = [(0, 5), (1, 4), (2, 8)]\<rparr>
   \<and> take 3 (objects
       \<lparr>arrays = [[0x61626364, 0x65000000], [7], [1, 2],
                    [0x65030308, 0x6162636C], [0x03030303]],
          objects = [(0, 5), (1, 4), (2, 8), (3, 8), (4, 3)]\<rparr>)
     = objects
       \<lparr>arrays = [[0x61626364, 0x65000000], [7], [1, 2]],
          objects = [(0, 5), (1, 4), (2, 8)]\<rparr>
   \<and> deref
       \<lparr>arrays = [[0x61626364, 0x65000000], [7], [1, 2],
                    [0x65030308, 0x6162636C], [0x03030303]],
          objects = [(0, 5), (1, 4), (2, 8), (3, 8), (4, 3)]\<rparr> 0
     = \<lparr>words = [0x61626364, 0x65000000], sigBytes = 5\<rparr>
   \<and> deref
       \<lparr>arrays = [[0x61626364, 0x65000000], [7], [1, 2],
                    [0x65030308, 0x6162636C], [0x03030303]],
          objects = [(0, 5), (1, 4), (2, 8), (3, 8), (4, 3)]\<rparr> 3
     = \<lparr>words = [0x65030308, 0x6162636C], sigBytes = 8\<rparr>"
proof -
  let ?s = "\<lparr>arrays = [[0x61626364, 0x65000000], [7], [1, 2]],
          objects = [(0, 5), (1, 4), (2, 8)]\<rparr>"
  let ?s' = "\<lparr>arrays = [[0x61626364, 0x65000000], [7], [1, 2],
                    [0x65030308, 0x6162636C], [0x03030303]],
          objects = [(0, 5), (1, 4), (2, 8), (3, 8), (4, 3)]\<rparr>"
  have e: "Cipher_encrypt_st (Block toy_cipher) (Ref 0) 1 \<lparr>st_iv = Some 2, st_padding = None, st_mode = None\<rparr> ?s = Some (Inr 3, ?s')"
    by code_simp
  have d: "deref ?s 0 = \<lparr>words = [0x61626364, 0x65000000], sigBytes = 5\<rparr>"
    "deref ?s' 3 = \<lparr>words = [0x65030308, 0x6162636C], sigBytes = 8\<rparr>"
    by (simp_all add: deref_def array_at_def words_ref_def sigBytes_at_def)
  have l: "length (arrays ?s) = 3" "length (objects ?s) = 3" by simp_all
  have v: "0 < length (objects ?s) \<and> words_ref ?s 0 < length (arrays ?s)"
    by (simp add: words_ref_def)
  note f = Cipher_frame [OF disjI1 [OF e]]
  have t1: "take 3 (arrays ?s') = arrays ?s"
    using f [THEN conjunct1] unfolding l .
  have t2: "take 3 (objects ?s') = objects ?s"
    using f [THEN conjunct2, THEN conjunct1] unfolding l .
  have "deref ?s' 0 = deref ?s 0"
    using f [THEN conjunct2, THEN conjunct2, THEN conjunct1, rule_format, OF v] .
  then have t3: "deref ?s' 0 = \<lparr>words = [0x61626364, 0x65000000], sigBytes = 5\<rparr>"
    unfolding d .
  show ?thesis using e t1 t2 t3 d(2) by (intro conjI)
qed

end
